theory Spec2Isabelle
  imports Main "HOL-Library.Char_ord" "HOL-Library.List_Lexorder"
begin

section \<open>ArcPy\_IngestREST.py: bulk extraction of a feature service layer\<close>

text \<open>
  The script pulls every record of a remote layer through range queries on the object
  identifier, stages one JSON file per query, converts the staged files into feature
  classes of an intermediate geodatabase and replaces the destination feature class
  with their union. Python integers are \<open>int\<close>, counts are \<open>nat\<close>, byte strings and
  text are \<open>string\<close>. Exceptions are values of \<open>error\<close>.
\<close>

datatype error =
  ZeroDivisionError | IndexError | KeyError | JSONDecodeError | ConnectionError
  | FileNotFoundError | ExecuteError

subsection \<open>Settings\<close>

definition query_request_standard_pause :: nat where
  "query_request_standard_pause = 10"

definition record_extraction_hardcode :: int where
  "record_extraction_hardcode = 30000"

definition server_error_message :: string where
  "server_error_message =
     ''{\"error\":{\"code\":500,\"message\":\"Error performing query operation\",\"details\":[]}}''"

subsection \<open>IterableChunk\<close>

text \<open>
  \<^verbatim>\<open>itertools.zip_longest(*([iter(xs)] * n))\<close>: every tuple takes the next \<open>n\<close> items of
  the one shared iterator and is filled up with \<open>None\<close> when the iterator runs dry in
  the middle of a tuple; a round that finds the iterator dry at its first position
  yields nothing and ends the iteration. With no argument at all (\<open>n = 0\<close>) nothing is
  yielded.
\<close>

function zip_longest_shared :: "nat \<Rightarrow> 'a list \<Rightarrow> 'a option list list" where
  "zip_longest_shared n xs =
     (if n = 0 \<or> xs = [] then []
      else (map Some (take n xs) @ replicate (n - length (take n xs)) None)
             # zip_longest_shared n (drop n xs))"
  by pat_completeness auto
termination
  by (relation "measure (\<lambda>(n, xs). length xs)") auto

text \<open>
  \<open>IterableChunk\<close> returns the chunks; the model returns with them the iteration
  count the function prints. \<open>len(xs) % 0\<close> raises; a negative \<open>ServiceRequestMAX\<close>
  makes \<open>[iter(xs)] * ServiceRequestMAX\<close> the empty list.
\<close>

definition IterableChunk :: "int \<Rightarrow> int list \<Rightarrow> error + (int \<times> int list list)" where
  "IterableChunk ServiceRequestMAX ObjectIDManifest =
     (if ServiceRequestMAX = 0 then Inl ZeroDivisionError
      else
        let final_iterator =
              (if int (length ObjectIDManifest) mod ServiceRequestMAX > 0 then 1 else 0);
            total_iterations =
              int (length ObjectIDManifest) div ServiceRequestMAX + final_iterator
        in Inr (total_iterations,
                map (\<lambda>chunk. map the (filter (\<lambda>item. item \<noteq> None) chunk))
                  (zip_longest_shared (nat ServiceRequestMAX) ObjectIDManifest)))"

text \<open>
  The main loop reads \<open>objectID_group[0]\<close> and \<open>objectID_group[-1]\<close>; both raise
  \<open>IndexError\<close> on an empty group.
\<close>

definition group_bounds :: "int list \<Rightarrow> error + (int \<times> int)" where
  "group_bounds objectID_group =
     (case objectID_group of
        [] \<Rightarrow> Inl IndexError
      | _ \<Rightarrow> Inr (hd objectID_group, last objectID_group))"

subsection \<open>Text of numbers\<close>

text \<open>\<^verbatim>\<open>str(n)\<close> for an integer, and \<^verbatim>\<open>s.zfill(width)\<close>, which pads after a sign.\<close>

definition digit_char :: "nat \<Rightarrow> char" where
  "digit_char d = ''0123456789'' ! d"

function str_nat :: "nat \<Rightarrow> string" where
  "str_nat n = (if n < 10 then [digit_char n] else str_nat (n div 10) @ [digit_char (n mod 10)])"
  by pat_completeness auto
termination
  by (relation "measure id") auto

definition str_int :: "int \<Rightarrow> string" where
  "str_int i = (if i < 0 then CHR ''-'' # str_nat (nat (- i)) else str_nat (nat i))"

definition zfill :: "nat \<Rightarrow> string \<Rightarrow> string" where
  "zfill width s =
     (case s of
        [] \<Rightarrow> replicate width CHR ''0''
      | c # rest \<Rightarrow>
          if c = CHR ''+'' \<or> c = CHR ''-''
          then c # replicate (width - length s) CHR ''0'' @ rest
          else replicate (width - length s) CHR ''0'' @ s)"

subsection \<open>The world the script acts on\<close>

text \<open>
  A response of the HTTP session, as far as the script reads it. The server's answers
  are a trace consumed from the front, one per \<open>session.get\<close>; an entry may be a
  connection-level exception. Every effect is appended to a log of events, so that the
  order of requests, sleeps and writes can be stated.
\<close>

record response =
  ok :: bool
  status_code :: int
  content :: string

datatype http_result = Response response | ConnectionFailed

record featureclass =
  shapeType :: string
  schema :: string
  rows :: "string list"

datatype event =
    Get string
  | Sleep nat
  | WriteFile string string
  | RemoveFile string
  | DeleteIntermediateGDB
  | CreateIntermediateGDB
  | JSONToFeatures string string
  | DeleteFinal
  | CreateFinal
  | AppendFinal "string list"

record world =
  response_flag :: bool
  json_file_iterator :: nat
  net :: "http_result list"
  events :: "event list"
  out_json_folder :: "(string \<times> string) list"
  intermediate_gdb :: "(string \<times> featureclass) list option"
  final_featureclass :: "featureclass option"

text \<open>
  What the run depends on and the script does not define: the configured service URL,
  the order in which \<open>os.listdir\<close> lists file names (arbitrary for Python; here the
  names are listed by ascending rank, the rank being any function), the converter behind
  \<open>arcpy.JSONToFeatures_conversion\<close> (\<open>None\<close>: the tool raises), and the decoding of
  the two metadata replies (\<open>response.json()\<close> and the keys read from it).
\<close>

record env =
  service_URL :: string
  listdir_rank :: "string \<Rightarrow> nat"
  converter :: "string \<Rightarrow> featureclass option"
  decode_maxRecordCount :: "string \<Rightarrow> error + int"
  decode_objectIds :: "string \<Rightarrow> error + (string \<times> int list)"

text \<open>
  The outcome of a step: it returns, it raises, or the trace of server answers ends
  while the step waits for one (\<open>Blocked\<close>).
\<close>

datatype 'a result = Done 'a | Raised error | Blocked

definition log :: "event \<Rightarrow> world \<Rightarrow> world" where
  "log e w = w\<lparr>events := events w @ [e]\<rparr>"

definition time_sleep :: "nat \<Rightarrow> world \<Rightarrow> world" where
  "time_sleep secs w = log (Sleep secs) w"

definition session_get :: "string \<Rightarrow> world \<Rightarrow> response result \<times> world" where
  "session_get url w =
     (case net w of
        [] \<Rightarrow> (Blocked, log (Get url) w)
      | ConnectionFailed # rest \<Rightarrow> (Raised ConnectionError, log (Get url) (w\<lparr>net := rest\<rparr>))
      | Response r # rest \<Rightarrow> (Done r, log (Get url) (w\<lparr>net := rest\<rparr>)))"

text \<open>\<^verbatim>\<open>open(name, "wb")\<close> and \<^verbatim>\<open>write\<close>: the file is created or replaced.\<close>

fun write_file :: "string \<Rightarrow> 'a \<Rightarrow> (string \<times> 'a) list \<Rightarrow> (string \<times> 'a) list" where
  "write_file name data [] = [(name, data)]"
| "write_file name data ((n, d) # files) =
     (if n = name then (name, data) # files else (n, d) # write_file name data files)"

definition open_write :: "string \<Rightarrow> string \<Rightarrow> world \<Rightarrow> world" where
  "open_write name data w =
     log (WriteFile name data) (w\<lparr>out_json_folder := write_file name data (out_json_folder w)\<rparr>)"

subsection \<open>QueryExtractionRequest\<close>

text \<open>\<^verbatim>\<open>needle in haystack\<close> on byte strings.\<close>

fun startswith :: "string \<Rightarrow> string \<Rightarrow> bool" where
  "startswith ys [] = True"
| "startswith [] (x # xs) = False"
| "startswith (y # ys) (x # xs) = (x = y \<and> startswith ys xs)"

fun bytes_in :: "string \<Rightarrow> string \<Rightarrow> bool" where
  "bytes_in needle [] = (needle = [])"
| "bytes_in needle (y # ys) = (startswith (y # ys) needle \<or> bytes_in needle ys)"

definition queryURL_of :: "string \<Rightarrow> string \<Rightarrow> string \<Rightarrow> string \<Rightarrow> string" where
  "queryURL_of ObjectID_MIN ObjectID_MAX ObjectID_FieldName ServiceURL =
     (let fields = ''*'';
          where = ObjectID_FieldName @ '' >= '' @ ObjectID_MIN @ '' and ''
                    @ ObjectID_FieldName @ '' <= '' @ ObjectID_MAX
      in ServiceURL @ ''/query?where='' @ where @ ''&returnGeometry=true&outFields=''
           @ fields @ ''&f=json'')"

text \<open>
  The \<open>while\<close> loop of \<open>QueryExtractionRequest\<close>. It has no bound of its own; it
  ends when a response is ok and the flag is set, and the model stops as \<open>Blocked\<close>
  when the trace has no further answer.
\<close>

function retry_loop :: "string \<Rightarrow> nat \<Rightarrow> response \<Rightarrow> world \<Rightarrow> response result \<times> world" where
  "retry_loop queryURL sleep_timer response w =
     (if \<not> ok response \<or> response_flag w = False then
        (let sleep_timer' = sleep_timer * 2;
             w1 = time_sleep sleep_timer' w
         in case session_get queryURL w1 of
              (Done response', w2) \<Rightarrow>
                retry_loop queryURL sleep_timer' response'
                  (if bytes_in server_error_message (content response')
                   then w2\<lparr>response_flag := False\<rparr>
                   else w2\<lparr>response_flag := True\<rparr>)
            | (Raised e, w2) \<Rightarrow> (Raised e, w2)
            | (Blocked, w2) \<Rightarrow> (Blocked, w2))
      else (Done response, w))"
  by pat_completeness auto
termination
  by (relation "measure (\<lambda>(queryURL, sleep_timer, response, w). length (net w))")
    (auto simp: session_get_def time_sleep_def log_def split: list.splits http_result.splits)

text \<open>
  The file is written into the folder \<open>out_json_folder\<close> of the world; its name comes
  from the global \<open>json_file_iterator\<close>.
\<close>

definition QueryExtractionRequest ::
  "string \<Rightarrow> string \<Rightarrow> string \<Rightarrow> string \<Rightarrow> world \<Rightarrow> unit result \<times> world" where
  "QueryExtractionRequest ObjectID_MIN ObjectID_MAX ObjectID_FieldName ServiceURL w =
     (let queryURL = queryURL_of ObjectID_MIN ObjectID_MAX ObjectID_FieldName ServiceURL
      in case session_get queryURL w of
           (Done response, w1) \<Rightarrow>
             (let w2 = (if bytes_in server_error_message (content response)
                        then w1\<lparr>response_flag := False\<rparr> else w1);
                  w3 = time_sleep query_request_standard_pause w2;
                  sleep_timer = 30
              in case retry_loop queryURL sleep_timer response w3 of
                   (Done response', w4) \<Rightarrow>
                     (Done (),
                      open_write (zfill 6 (str_nat (json_file_iterator w4)) @ ''.json'')
                        (content response') w4)
                 | (Raised e, w4) \<Rightarrow> (Raised e, w4)
                 | (Blocked, w4) \<Rightarrow> (Blocked, w4))
         | (Raised e, w1) \<Rightarrow> (Raised e, w1)
         | (Blocked, w1) \<Rightarrow> (Blocked, w1))"

subsection \<open>Sequencing\<close>

text \<open>A statement after another runs only if the first returned; a \<open>for\<close> loop likewise.\<close>

definition and_then ::
  "'a result \<times> world \<Rightarrow> ('a \<Rightarrow> world \<Rightarrow> 'b result \<times> world) \<Rightarrow> 'b result \<times> world" where
  "and_then m f =
     (case m of
        (Done x, w) \<Rightarrow> f x w
      | (Raised e, w) \<Rightarrow> (Raised e, w)
      | (Blocked, w) \<Rightarrow> (Blocked, w))"

fun for_each :: "('a \<Rightarrow> world \<Rightarrow> unit result \<times> world) \<Rightarrow> 'a list \<Rightarrow> world \<Rightarrow> unit result \<times> world" where
  "for_each body [] w = (Done (), w)"
| "for_each body (x # xs) w = and_then (body x w) (\<lambda>_ w'. for_each body xs w')"

subsection \<open>The metadata requests\<close>

definition ServiceGetRecordExtract :: "env \<Rightarrow> string \<Rightarrow> world \<Rightarrow> int result \<times> world" where
  "ServiceGetRecordExtract E ServiceURL w =
     and_then (session_get (ServiceURL @ ''?f=pjson'') w)
       (\<lambda>response w1.
          case decode_maxRecordCount E (content response) of
            Inl e \<Rightarrow> (Raised e, w1)
          | Inr ServiceRequestMAX \<Rightarrow> (Done ServiceRequestMAX, w1))"

definition ServiceGetObjectIDs ::
  "env \<Rightarrow> string \<Rightarrow> world \<Rightarrow> (string \<times> int list) result \<times> world" where
  "ServiceGetObjectIDs E ServiceURL w =
     and_then (session_get (ServiceURL @ ''/query?where=1%3D1&returnIdsOnly=true&f=json'') w)
       (\<lambda>response w1.
          case decode_objectIds E (content response) of
            Inl e \<Rightarrow> (Raised e, w1)
          | Inr (ObjectID_FieldName, objectIds) \<Rightarrow>
              (Done (ObjectID_FieldName, sort objectIds), w1))"

subsection \<open>The staging folder\<close>

text \<open>
  The folder is an association list read as a map from file name to bytes. A listing
  holds every name once, in the order of the rank.
\<close>

definition os_listdir :: "env \<Rightarrow> world \<Rightarrow> string list" where
  "os_listdir E w = sort_key (listdir_rank E) (remdups (map fst (out_json_folder w)))"

definition os_remove :: "string \<Rightarrow> world \<Rightarrow> unit result \<times> world" where
  "os_remove name w =
     (if name \<in> set (map fst (out_json_folder w))
      then (Done (),
            log (RemoveFile name)
              (w\<lparr>out_json_folder := filter (\<lambda>(n, d). n \<noteq> name) (out_json_folder w)\<rparr>))
      else (Raised FileNotFoundError, w))"

definition CleanUpJSONsFolder :: "env \<Rightarrow> world \<Rightarrow> unit result \<times> world" where
  "CleanUpJSONsFolder E w = for_each os_remove (os_listdir E w) w"

subsection \<open>Conversion and merge\<close>

definition ListFeatureClasses :: "world \<Rightarrow> string list" where
  "ListFeatureClasses w = (case intermediate_gdb w of None \<Rightarrow> [] | Some fcs \<Rightarrow> map fst fcs)"

definition Delete_fc :: "string \<Rightarrow> world \<Rightarrow> unit result \<times> world" where
  "Delete_fc fc w =
     (Done (),
      w\<lparr>intermediate_gdb := map_option (filter (\<lambda>(n, d). n \<noteq> fc)) (intermediate_gdb w)\<rparr>)"

text \<open>\<^verbatim>\<open>file.split(".")[0]\<close>: the name up to its first dot.\<close>

definition split_dot_0 :: "string \<Rightarrow> string" where
  "split_dot_0 file = takeWhile (\<lambda>c. c \<noteq> CHR ''.'') file"

text \<open>
  One call of \<open>arcpy.JSONToFeatures_conversion\<close>: it raises when the converter fails,
  otherwise it stores the feature class under its name in the workspace, replacing one
  of that name (\<open>arcpy.env.overwriteOutput\<close> is set).
\<close>

definition convert_file :: "env \<Rightarrow> string \<Rightarrow> world \<Rightarrow> unit result \<times> world" where
  "convert_file E file w =
     (let file_name_0 = split_dot_0 file;
          w1 = log (JSONToFeatures file (''chunk_'' @ file_name_0)) w
      in case map_of (out_json_folder w1) file of
           None \<Rightarrow> (Raised ExecuteError, w1)
         | Some data \<Rightarrow>
             (case converter E data of
                None \<Rightarrow> (Raised ExecuteError, w1)
              | Some fc \<Rightarrow>
                  (Done (),
                   w1\<lparr>intermediate_gdb :=
                        map_option (write_file (''chunk_'' @ file_name_0) fc)
                          (intermediate_gdb w1)\<rparr>)))"

definition ConvertJSONstoFeatureClasses :: "env \<Rightarrow> world \<Rightarrow> unit result \<times> world" where
  "ConvertJSONstoFeatureClasses E w =
     (let w1 = (if intermediate_gdb w \<noteq> None
                then log DeleteIntermediateGDB (w\<lparr>intermediate_gdb := None\<rparr>) else w);
          w2 = log CreateIntermediateGDB (w1\<lparr>intermediate_gdb := Some []\<rparr>);
          list_fc = ListFeatureClasses w2
      in and_then (for_each Delete_fc list_fc w2)
           (\<lambda>_ w3. for_each (convert_file E) (os_listdir E w3) w3))"

text \<open>
  \<open>ReplaceFinalFeatureClassWithIntermediateFeatureClasses\<close>. The workspace is still the
  intermediate geodatabase, so \<open>list_fc\<close> is its content (here with the feature classes
  themselves, which \<open>Describe\<close> and \<open>Append\<close> read by name); \<open>list_fc[0]\<close> raises
  on an empty list. The new feature class takes shape type and schema from the first
  one and receives the rows of all of them.
\<close>

definition ReplaceFinalFeatureClassWithIntermediateFeatureClasses ::
  "world \<Rightarrow> unit result \<times> world" where
  "ReplaceFinalFeatureClassWithIntermediateFeatureClasses w =
     (let w1 = (if final_featureclass w \<noteq> None
                then log DeleteFinal (w\<lparr>final_featureclass := None\<rparr>) else w);
          list_fc = (case intermediate_gdb w1 of None \<Rightarrow> [] | Some fcs \<Rightarrow> fcs)
      in case list_fc of
           [] \<Rightarrow> (Raised IndexError, w1)
         | (name_0, describe_fc) # _ \<Rightarrow>
             (let created = \<lparr>shapeType = shapeType describe_fc, schema = schema describe_fc,
                              rows = []\<rparr>;
                  w2 = log CreateFinal (w1\<lparr>final_featureclass := Some created\<rparr>);
                  w3 = log (AppendFinal (map fst list_fc))
                         (w2\<lparr>final_featureclass :=
                               Some (created\<lparr>rows := concat (map (rows \<circ> snd) list_fc)\<rparr>)\<rparr>)
              in (Done (), w3)))"

subsection \<open>The script\<close>

text \<open>One turn of the main loop.\<close>

definition extract_group :: "string \<Rightarrow> string \<Rightarrow> int list \<Rightarrow> world \<Rightarrow> unit result \<times> world" where
  "extract_group objectID_Field_Name ServiceURL objectID_group w =
     (case group_bounds objectID_group of
        Inl e \<Rightarrow> (Raised e, w)
      | Inr (first_id, last_id) \<Rightarrow>
          (let objectID_MIN = str_int first_id;
               objectID_MAX = str_int last_id;
               w1 = w\<lparr>json_file_iterator := json_file_iterator w + length objectID_group\<rparr>
           in QueryExtractionRequest objectID_MIN objectID_MAX objectID_Field_Name ServiceURL w1))"

text \<open>
  Everything up to the end of the main loop: the staging of the payloads. The module
  sets \<open>json_file_iterator = 0\<close> and \<open>response_flag = True\<close> when it is loaded. The
  record limit the service reports is fetched and not used: the chunks are cut with
  \<open>record_extraction_hardcode\<close>.
\<close>

definition staging :: "env \<Rightarrow> world \<Rightarrow> unit result \<times> world" where
  "staging E w =
     (let w0 = w\<lparr>json_file_iterator := 0, response_flag := True\<rparr>
      in and_then (CleanUpJSONsFolder E w0) (\<lambda>_ w1.
         and_then (ServiceGetRecordExtract E (service_URL E) w1) (\<lambda>service_request_MAX w2.
         and_then (ServiceGetObjectIDs E (service_URL E) w2)
           (\<lambda>(objectID_Field_Name, objectID_Manifest) w3.
              case IterableChunk record_extraction_hardcode objectID_Manifest of
                Inl e \<Rightarrow> (Raised e, w3)
              | Inr (total_iterations, objectID_Groups) \<Rightarrow>
                  for_each (extract_group objectID_Field_Name (service_URL E))
                    objectID_Groups w3))))"

definition main :: "env \<Rightarrow> world \<Rightarrow> unit result \<times> world" where
  "main E w =
     and_then (staging E w) (\<lambda>_ w4.
     and_then (ConvertJSONstoFeatureClasses E w4) (\<lambda>_ w5.
       ReplaceFinalFeatureClassWithIntermediateFeatureClasses w5))"

section \<open>Notions used in the statements\<close>

text \<open>
  The chunks without the padding: strides of the manifest.
\<close>

function strides :: "nat \<Rightarrow> 'a list \<Rightarrow> 'a list list" where
  "strides n xs = (if n = 0 \<or> xs = [] then [] else take n xs # strides n (drop n xs))"
  by pat_completeness auto
termination
  by (relation "measure (\<lambda>(n, xs). length xs)") auto

text \<open>
  A response the retry loop does not accept: the HTTP status is not a success (hard
  failure), or the body holds the sentinel (soft failure).
\<close>

definition failed :: "response \<Rightarrow> bool" where
  "failed r = (\<not> ok r \<or> bytes_in server_error_message (content r))"

text \<open>
  The events of \<open>k\<close> turns of the retry loop entered with \<open>sleep_timer = t\<close>.
\<close>

fun backoff_events :: "string \<Rightarrow> nat \<Rightarrow> nat \<Rightarrow> event list" where
  "backoff_events url t 0 = []"
| "backoff_events url t (Suc k) = Sleep (t * 2) # Get url # backoff_events url (t * 2) k"

text \<open>
  Readings of the log of events: the sleeps, the requested URLs, the files written
  and the files handed to the converter, each in order.
\<close>

fun sleeps_of :: "event list \<Rightarrow> nat list" where
  "sleeps_of [] = []"
| "sleeps_of (Sleep n # es) = n # sleeps_of es"
| "sleeps_of (e # es) = sleeps_of es"

fun gets_of :: "event list \<Rightarrow> string list" where
  "gets_of [] = []"
| "gets_of (Get url # es) = url # gets_of es"
| "gets_of (e # es) = gets_of es"

fun writes_of :: "event list \<Rightarrow> (string \<times> string) list" where
  "writes_of [] = []"
| "writes_of (WriteFile name data # es) = (name, data) # writes_of es"
| "writes_of (e # es) = writes_of es"

fun converted_of :: "event list \<Rightarrow> string list" where
  "converted_of [] = []"
| "converted_of (JSONToFeatures file name # es) = file # converted_of es"
| "converted_of (e # es) = converted_of es"

text \<open>
  Kinds of events: requests, network events (requests and sleeps), and the events
  that change the destination.
\<close>

fun is_Get :: "event \<Rightarrow> bool" where
  "is_Get (Get url) = True"
| "is_Get e = False"

fun network_only :: "event \<Rightarrow> bool" where
  "network_only (Get url) = True"
| "network_only (Sleep n) = True"
| "network_only e = False"

fun touches_final :: "event \<Rightarrow> bool" where
  "touches_final DeleteFinal = True"
| "touches_final CreateFinal = True"
| "touches_final (AppendFinal fcs) = True"
| "touches_final e = False"

text \<open>
  Whether the standard pause comes after the last request of a log.
\<close>

definition pause_after_final_response :: "event list \<Rightarrow> bool" where
  "pause_after_final_response evs =
     (Sleep query_request_standard_pause \<in> set (takeWhile (\<lambda>e. \<not> is_Get e) (rev evs)))"

text \<open>
  The name of the file written when \<open>json_file_iterator\<close> is \<open>n\<close>; the values
  \<open>json_file_iterator\<close> takes over the chunks from a start value; a number in decimal
  with exactly \<open>k\<close> digits.
\<close>

definition staged_name :: "nat \<Rightarrow> string" where
  "staged_name n = zfill 6 (str_nat n) @ ''.json''"

fun running_totals :: "nat \<Rightarrow> 'a list list \<Rightarrow> nat list" where
  "running_totals n [] = []"
| "running_totals n (g # gs) = (n + length g) # running_totals (n + length g) gs"

fun fixed_digits :: "nat \<Rightarrow> nat \<Rightarrow> string" where
  "fixed_digits 0 n = []"
| "fixed_digits (Suc k) n = fixed_digits k (n div 10) @ [digit_char (n mod 10)]"

text \<open>
  What a run can do to the destination is read from the destination feature class
  and the destination events of the log; a step keeps the destination when it leaves
  both as they are, whatever its outcome.
\<close>

definition final_view :: "world \<Rightarrow> featureclass option \<times> event list" where
  "final_view w = (final_featureclass w, filter touches_final (events w))"

definition keeps_final :: "(world \<Rightarrow> 'a result \<times> world) \<Rightarrow> bool" where
  "keeps_final step = (\<forall>w. final_view (snd (step w)) = final_view w)"

text \<open>
  The event of one conversion, and whether the converter accepts a staged file.
\<close>

definition conversion_event :: "string \<Rightarrow> event" where
  "conversion_event file = JSONToFeatures file (''chunk_'' @ split_dot_0 file)"

definition convertible :: "env \<Rightarrow> world \<Rightarrow> string \<Rightarrow> bool" where
  "convertible E w file =
     (case map_of (out_json_folder w) file of
        None \<Rightarrow> False
      | Some data \<Rightarrow> converter E data \<noteq> None)"

text \<open>
  A served trace: for every chunk the responses that fail, then the response that is
  accepted. The server answers of such a trace, and the events of the main loop on it,
  started with \<open>json_file_iterator = n\<close>.
\<close>

fun served_trace :: "(response list \<times> response) list \<Rightarrow> http_result list" where
  "served_trace [] = []"
| "served_trace ((fs, s) # others) = map Response fs @ Response s # served_trace others"

fun loop_events ::
  "string \<Rightarrow> string \<Rightarrow> nat \<Rightarrow> int list list \<Rightarrow> (response list \<times> response) list \<Rightarrow> event list" where
  "loop_events f u n (g # gs) ((fs, s) # others) =
     Get (queryURL_of (str_int (hd g)) (str_int (last g)) f u)
       # Sleep query_request_standard_pause
       # backoff_events (queryURL_of (str_int (hd g)) (str_int (last g)) f u) 30 (length fs)
       @ WriteFile (staged_name (n + length g)) (content s)
       # loop_events f u (n + length g) gs others"
| "loop_events f u n gs served = []"

definition served_ok :: "response list \<times> response \<Rightarrow> bool" where
  "served_ok p = (list_all failed (fst p) \<and> \<not> failed (snd p))"

subsection \<open>Example inputs\<close>

text \<open>
  Responses: a soft failure, a hard failure, an accepted payload, a payload that
  holds the sentinel bytes among its attributes, and the two metadata replies.
\<close>

definition soft_error :: response where
  "soft_error = \<lparr>ok = True, status_code = 200, content = server_error_message\<rparr>"

definition hard_failure :: response where
  "hard_failure = \<lparr>ok = False, status_code = 503, content = ''Service Unavailable''\<rparr>"

definition success :: response where
  "success = \<lparr>ok = True, status_code = 200, content = ''{\"features\":[]}''\<rparr>"

definition features_quoting_sentinel :: response where
  "features_quoting_sentinel =
     \<lparr>ok = True, status_code = 200,
      content = ''{\"features\":[{\"attributes\":{\"LAST_REPLY\":'' @ server_error_message
                  @ ''}}]}''\<rparr>"

definition capabilities_reply :: response where
  "capabilities_reply = \<lparr>ok = True, status_code = 200, content = ''{\"maxRecordCount\":1000}''\<rparr>"

definition one_id_reply :: response where
  "one_id_reply =
     \<lparr>ok = True, status_code = 200,
      content = ''{\"objectIdFieldName\":\"OBJECTID\",\"objectIds\":[7]}''\<rparr>"

definition no_ids_reply :: response where
  "no_ids_reply =
     \<lparr>ok = True, status_code = 200,
      content = ''{\"objectIdFieldName\":\"OBJECTID\",\"objectIds\":[]}''\<rparr>"

text \<open>
  Worlds: nothing staged and no destination; two payloads staged. A destination
  left by an earlier run.
\<close>

definition idle_world :: world where
  "idle_world =
     \<lparr>response_flag = True, json_file_iterator = 0, net = [], events = [],
      out_json_folder = [], intermediate_gdb = None, final_featureclass = None\<rparr>"


definition old_featureclass :: featureclass where
  "old_featureclass = \<lparr>shapeType = ''Polygon'', schema = ''OBJECTID'', rows = [''last run'']\<rparr>"

text \<open>
  Environments: a converter that accepts everything and a listing that keeps the
  stored order; a listing that puts \<open>000006.json\<close> first; a converter that refuses
  everything.
\<close>

definition example_env :: env where
  "example_env =
     \<lparr>service_URL = ''https://host/FeatureServer/0'',
      listdir_rank = (\<lambda>name. 0),
      converter = (\<lambda>data. Some \<lparr>shapeType = ''Polygon'', schema = ''OBJECTID'', rows = [data]\<rparr>),
      decode_maxRecordCount =
        (\<lambda>body. if body = content capabilities_reply then Inr 1000 else Inl JSONDecodeError),
      decode_objectIds =
        (\<lambda>body. if body = content one_id_reply then Inr (''OBJECTID'', [7])
                else if body = content no_ids_reply then Inr (''OBJECTID'', [])
                else Inl JSONDecodeError)\<rparr>"


definition failing_env :: env where
  "failing_env = example_env\<lparr>converter := (\<lambda>data. None)\<rparr>"

section \<open>Properties of the chunk planner\<close>

declare zip_longest_shared.simps [simp del] strides.simps [simp del]
  str_nat.simps [simp del] retry_loop.simps [simp del]

lemma zip_longest_shared_stop [simp]:
  "zip_longest_shared 0 xs = []" "zip_longest_shared n [] = []"
  by (simp_all add: zip_longest_shared.simps)

lemma zip_longest_shared_step:
  "0 < n \<Longrightarrow> xs \<noteq> [] \<Longrightarrow>
   zip_longest_shared n xs =
     (map Some (take n xs) @ replicate (n - length (take n xs)) None)
       # zip_longest_shared n (drop n xs)"
  by (subst zip_longest_shared.simps) simp

lemma strides_stop [simp]: "strides 0 xs = []" "strides n [] = []"
  by (simp_all add: strides.simps)

lemma strides_step:
  "0 < n \<Longrightarrow> xs \<noteq> [] \<Longrightarrow> strides n xs = take n xs # strides n (drop n xs)"
  by (subst strides.simps) simp

lemma unpad_chunk:
  "map the (filter (\<lambda>item. item \<noteq> None) (map Some ys @ replicate k None)) = ys"
  by (induction ys) simp_all

lemma zip_longest_shared_strides:
  "map (\<lambda>chunk. map the (filter (\<lambda>item. item \<noteq> None) chunk)) (zip_longest_shared n xs)
     = strides n xs"
proof (induction n xs rule: strides.induct)
  case (1 n xs)
  show ?case
  proof (cases "n = 0 \<or> xs = []")
    case True
    then show ?thesis by auto
  next
    case False
    then have n: "0 < n" and xs: "xs \<noteq> []" by simp_all
    from "1.IH" False have
      "map (\<lambda>chunk. map the (filter (\<lambda>item. item \<noteq> None) chunk))
         (zip_longest_shared n (drop n xs)) = strides n (drop n xs)"
      by simp
    then show ?thesis
      by (simp only: zip_longest_shared_step [OF n xs] strides_step [OF n xs]
          list.map unpad_chunk)
  qed
qed

lemma IterableChunk_strides:
  "ServiceRequestMAX \<noteq> 0 \<Longrightarrow>
   IterableChunk ServiceRequestMAX ObjectIDManifest =
     Inr (int (length ObjectIDManifest) div ServiceRequestMAX
            + (if int (length ObjectIDManifest) mod ServiceRequestMAX > 0 then 1 else 0),
          strides (nat ServiceRequestMAX) ObjectIDManifest)"
  unfolding IterableChunk_def Let_def zip_longest_shared_strides by simp

lemma concat_strides: "0 < n \<Longrightarrow> concat (strides n xs) = xs"
proof (induction n xs rule: strides.induct)
  case (1 n xs)
  then show ?case
    by (cases "xs = []") (simp_all add: strides_step)
qed

lemma strides_nonempty: "g \<in> set (strides n xs) \<Longrightarrow> g \<noteq> []"
proof (induction n xs rule: strides.induct)
  case (1 n xs)
  then show ?case
    by (cases "n = 0 \<or> xs = []") (auto simp: strides_step)
qed

lemma strides_length_le: "g \<in> set (strides n xs) \<Longrightarrow> length g \<le> n"
proof (induction n xs rule: strides.induct)
  case (1 n xs)
  then show ?case
    by (cases "n = 0 \<or> xs = []") (auto simp: strides_step)
qed

lemma length_strides:
  "0 < n \<Longrightarrow> length (strides n xs) = length xs div n + (if length xs mod n > 0 then 1 else 0)"
proof (induction n xs rule: strides.induct)
  case (1 n xs)
  show ?case
  proof (cases "xs = []")
    case True
    then show ?thesis by simp
  next
    case False
    show ?thesis
    proof (cases "length xs < n")
      case True
      with False "1.prems" show ?thesis
        by (simp add: strides_step)
    next
      case ge: False
      then have split: "length xs = (length xs - n) + n" by simp
      have d: "length xs div n = Suc ((length xs - n) div n)"
        using ge "1.prems" by (simp add: le_div_geq)
      have m: "length xs mod n = (length xs - n) mod n"
        using ge by (simp add: le_mod_geq)
      from False "1.prems" "1.IH" have
        "length (strides n xs) =
           Suc ((length xs - n) div n + (if (length xs - n) mod n > 0 then 1 else 0))"
        by (simp add: strides_step)
      with d m show ?thesis by simp
    qed
  qed
qed

text \<open>Consecutive pieces of a strictly increasing list.\<close>

lemma sorted_pieces_adjacent:
  fixes gs :: "int list list"
  assumes srt: "sorted_wrt (<) (concat gs)"
    and ne: "\<forall>g \<in> set gs. g \<noteq> []"
    and i: "Suc i < length gs"
  shows "last (gs ! i) < hd (gs ! Suc i)"
    and "\<forall>x \<in> set (concat gs). \<not> (last (gs ! i) < x \<and> x < hd (gs ! Suc i))"
proof -
  let ?a = "gs ! i" and ?b = "gs ! Suc i"
  let ?pre = "concat (take i gs)" and ?post = "concat (drop (Suc (Suc i)) gs)"
  from i have "gs = take i gs @ ?a # ?b # drop (Suc (Suc i)) gs"
    by (metis Cons_nth_drop_Suc Suc_lessD id_take_nth_drop)
  then have "concat gs = concat (take i gs @ ?a # ?b # drop (Suc (Suc i)) gs)"
    by simp
  then have cc: "concat gs = ?pre @ ?a @ ?b @ ?post"
    by simp
  from ne i have a: "?a \<noteq> []" and b: "?b \<noteq> []"
    by (simp_all add: Suc_lessD)
  from srt cc have s: "sorted_wrt (<) (?pre @ ?a @ ?b @ ?post)"
    by simp
  from a b have la: "last ?a \<in> set ?a" and hb: "hd ?b \<in> set ?b"
    by simp_all
  from s la hb show "last ?a < hd ?b"
    by (auto simp: sorted_wrt_append)
  have sa: "sorted_wrt (<) ?a" and sb: "sorted_wrt (<) ?b"
    using s by (auto simp: sorted_wrt_append)
  have le_a: "x \<le> last ?a" if "x \<in> set ?a" for x
  proof -
    from a have "?a = butlast ?a @ [last ?a]" by simp
    with sa have "sorted_wrt (<) (butlast ?a @ [last ?a])" by simp
    then have "\<forall>y \<in> set (butlast ?a). y < last ?a"
      by (simp add: sorted_wrt_append)
    moreover from that a have "x \<in> set (butlast ?a) \<or> x = last ?a"
      by (metis Un_iff append_butlast_last_id empty_iff insert_iff list.set(1) list.simps(15) set_append)
    ultimately show ?thesis by auto
  qed
  have ge_b: "hd ?b \<le> x" if "x \<in> set ?b" for x
  proof -
    from b have "?b = hd ?b # tl ?b" by simp
    with sb have "sorted_wrt (<) (hd ?b # tl ?b)" by simp
    then have "\<forall>y \<in> set (tl ?b). hd ?b < y" by simp
    moreover from that b have "x = hd ?b \<or> x \<in> set (tl ?b)"
      by (metis list.collapse set_ConsD)
    ultimately show ?thesis by auto
  qed
  show "\<forall>x \<in> set (concat gs). \<not> (last ?a < x \<and> x < hd ?b)"
  proof
    fix x assume "x \<in> set (concat gs)"
    with cc have "x \<in> set ?pre \<or> x \<in> set ?a \<or> x \<in> set ?b \<or> x \<in> set ?post"
      by auto
    then show "\<not> (last ?a < x \<and> x < hd ?b)"
    proof (elim disjE)
      assume "x \<in> set ?pre"
      with s la have "x < last ?a" by (auto simp: sorted_wrt_append)
      then show ?thesis by simp
    next
      assume "x \<in> set ?a"
      then show ?thesis using le_a by fastforce
    next
      assume "x \<in> set ?b"
      then show ?thesis using ge_b by fastforce
    next
      assume "x \<in> set ?post"
      with s hb have "hd ?b < x" by (auto simp: sorted_wrt_append)
      then show ?thesis by simp
    qed
  qed
qed

lemma sorted_piece_bounds:
  assumes "sorted_wrt (<) (concat gs)" and "g \<in> set gs" and "g \<noteq> []"
  shows "hd g \<le> (last g :: int)"
proof -
  from assms(2) obtain ps ss where "gs = ps @ g # ss"
    by (auto simp: in_set_conv_decomp)
  with assms(1) have sg: "sorted_wrt (<) g"
    by (simp add: sorted_wrt_append)
  show ?thesis
  proof (cases "tl g = []")
    case True
    with assms(3) have "g = [hd g]" by (metis list.collapse)
    then have "last g = hd g" by (metis last.simps)
    then show ?thesis by simp
  next
    case False
    with assms(3) have g: "g = hd g # tl g" and l: "last g = last (tl g)"
      by (simp_all add: last_tl)
    from sg g have "sorted_wrt (<) (hd g # tl g)" by simp
    then have "\<forall>y \<in> set (tl g). hd g < y" by simp
    moreover from False have "last (tl g) \<in> set (tl g)" by simp
    ultimately show ?thesis using l by fastforce
  qed
qed

lemma sorted_pieces_ordered:
  fixes gs :: "int list list"
  assumes srt: "sorted_wrt (<) (concat gs)"
    and ne: "\<forall>g \<in> set gs. g \<noteq> []"
    and ij: "i < j" "j < length gs"
  shows "last (gs ! i) < hd (gs ! j)"
proof -
  from ij have i: "i < length gs" by simp
  have "concat gs = concat (take (Suc i) gs) @ concat (drop (Suc i) gs)"
    by (metis append_take_drop_id concat_append)
  with srt have s: "sorted_wrt (<) (concat (take (Suc i) gs) @ concat (drop (Suc i) gs))"
    by simp
  from ne i ij have a: "gs ! i \<noteq> []" and b: "gs ! j \<noteq> []"
    by simp_all
  from i have "gs ! i \<in> set (take (Suc i) gs)"
    by (metis in_set_conv_nth length_take lessI min_less_iff_conj nth_take)
  moreover from a have "last (gs ! i) \<in> set (gs ! i)"
    by simp
  ultimately have la: "last (gs ! i) \<in> set (concat (take (Suc i) gs))"
    by (simp only: set_concat) blast
  from ij have "gs ! j = drop (Suc i) gs ! (j - Suc i)" "j - Suc i < length (drop (Suc i) gs)"
    by simp_all
  then have "gs ! j \<in> set (drop (Suc i) gs)"
    by (metis nth_mem)
  moreover from b have "hd (gs ! j) \<in> set (gs ! j)"
    by simp
  ultimately have hb: "hd (gs ! j) \<in> set (concat (drop (Suc i) gs))"
    by (simp only: set_concat) blast
  from s have "\<forall>a \<in> set (concat (take (Suc i) gs)).
      \<forall>b \<in> set (concat (drop (Suc i) gs)). a < b"
    by (simp only: sorted_wrt_append) blast
  with la hb show ?thesis
    by blast
qed

lemma sorted_piece_range:
  fixes gs :: "int list list"
  assumes srt: "sorted_wrt (<) (concat gs)" and g: "g \<in> set gs" and x: "x \<in> set g"
  shows "hd g \<le> x \<and> x \<le> last g"
proof -
  from g obtain ps ss where "gs = ps @ g # ss"
    by (auto simp: in_set_conv_decomp)
  with srt have sg: "sorted_wrt (<) g"
    by (simp add: sorted_wrt_append)
  from x have ne: "g \<noteq> []" by auto
  have "hd g \<le> x"
  proof -
    from ne have "g = hd g # tl g" by simp
    with sg have "sorted_wrt (<) (hd g # tl g)" by simp
    then have "\<forall>y \<in> set (tl g). hd g < y" by simp
    moreover from x ne have "x = hd g \<or> x \<in> set (tl g)"
      by (metis list.collapse set_ConsD)
    ultimately show ?thesis by auto
  qed
  moreover have "x \<le> last g"
  proof -
    from ne have "g = butlast g @ [last g]" by simp
    with sg have "sorted_wrt (<) (butlast g @ [last g])" by simp
    then have "\<forall>y \<in> set (butlast g). y < last g"
      by (simp add: sorted_wrt_append)
    moreover from x ne have "x \<in> set (butlast g) \<or> x = last g"
      by (metis Un_iff append_butlast_last_id empty_iff insert_iff list.set(1) list.simps(15)
          set_append)
    ultimately show ?thesis by auto
  qed
  ultimately show ?thesis by simp
qed

lemma sorted_pieces_cover_once:
  fixes gs :: "int list list"
  assumes srt: "sorted_wrt (<) (concat gs)" and ne: "\<forall>g \<in> set gs. g \<noteq> []"
    and x: "x \<in> set (concat gs)"
  shows "\<exists>!i. i < length gs \<and> hd (gs ! i) \<le> x \<and> x \<le> last (gs ! i)"
proof -
  from x obtain g where g: "g \<in> set gs" "x \<in> set g" by auto
  then obtain i where i: "i < length gs" "gs ! i = g"
    by (auto simp: in_set_conv_nth)
  with sorted_piece_range [OF srt g] have ex: "i < length gs \<and> hd (gs ! i) \<le> x \<and> x \<le> last (gs ! i)"
    by simp
  have uniq: "j = k" if j: "j < length gs" "hd (gs ! j) \<le> x" "x \<le> last (gs ! j)"
    and k: "k < length gs" "hd (gs ! k) \<le> x" "x \<le> last (gs ! k)" for j k
  proof (rule ccontr)
    assume "j \<noteq> k"
    then consider "j < k" | "k < j" by linarith
    then show False
    proof cases
      case 1
      from sorted_pieces_ordered [OF srt ne 1 k(1)] j(3) k(2) show False by simp
    next
      case 2
      from sorted_pieces_ordered [OF srt ne 2 j(1)] k(3) j(2) show False by simp
    qed
  qed
  from ex uniq show ?thesis by blast
qed

text \<open>
  C1. For every non-empty, strictly increasing manifest and every page size of at least
  1, \<open>IterableChunk\<close> returns chunks whose concatenation in order is the manifest; the
  main loop finds for every chunk its first element as minimum and its last element as
  maximum, with minimum \<open>\<le>\<close> maximum; the maximum of a chunk is below the minimum of
  the next chunk and no identifier of the manifest lies between the two; every
  identifier of the manifest lies between minimum and maximum of exactly one chunk. For the
  manifest 5, 8, 9, 12, 40, 41 and page size 3 the chunks are (5, 9) and (12, 41).
\<close>

theorem C1_chunks_partition_manifest:
  "(ObjectIDManifest \<noteq> [] \<and> sorted_wrt (<) ObjectIDManifest \<and> 1 \<le> ServiceRequestMAX \<longrightarrow>
      (\<exists>total groups.
         IterableChunk ServiceRequestMAX ObjectIDManifest = Inr (total, groups)
         \<and> groups \<noteq> []
         \<and> concat groups = ObjectIDManifest
         \<and> (\<forall>g \<in> set groups.
               group_bounds g = Inr (hd g, last g) \<and> hd g \<in> set g \<and> last g \<in> set g
               \<and> hd g \<le> last g)
         \<and> (\<forall>i. Suc i < length groups \<longrightarrow>
               last (groups ! i) < hd (groups ! Suc i)
               \<and> (\<forall>x \<in> set ObjectIDManifest.
                     \<not> (last (groups ! i) < x \<and> x < hd (groups ! Suc i))))
         \<and> (\<forall>x \<in> set ObjectIDManifest.
               \<exists>!i. i < length groups \<and> hd (groups ! i) \<le> x \<and> x \<le> last (groups ! i))))
   \<and> IterableChunk 3 [5, 8, 9, 12, 40, 41] = Inr (2, [[5, 8, 9], [12, 40, 41]])
   \<and> map group_bounds [[5, 8, 9], [12, 40, 41]] = [Inr (5, 9), Inr (12, 41)]"
proof (intro conjI impI)
  assume a: "ObjectIDManifest \<noteq> [] \<and> sorted_wrt (<) ObjectIDManifest \<and> 1 \<le> ServiceRequestMAX"
  let ?n = "nat ServiceRequestMAX"
  let ?gs = "strides ?n ObjectIDManifest"
  from a have n: "0 < ?n" and nz: "ServiceRequestMAX \<noteq> 0" by simp_all
  have cc: "concat ?gs = ObjectIDManifest"
    using n by (rule concat_strides)
  have ne: "\<forall>g \<in> set ?gs. g \<noteq> []"
    using strides_nonempty by blast
  from a cc have srt: "sorted_wrt (<) (concat ?gs)" by simp
  have nonempty: "?gs \<noteq> []"
    using a cc by auto
  have bounds: "\<forall>g \<in> set ?gs.
      group_bounds g = Inr (hd g, last g) \<and> hd g \<in> set g \<and> last g \<in> set g \<and> hd g \<le> last g"
  proof
    fix g assume g: "g \<in> set ?gs"
    with ne have "g \<noteq> []" by blast
    moreover from this have "group_bounds g = Inr (hd g, last g)"
      by (cases g) (simp_all add: group_bounds_def)
    moreover from srt g \<open>g \<noteq> []\<close> have "hd g \<le> last g"
      by (rule sorted_piece_bounds)
    ultimately show "group_bounds g = Inr (hd g, last g) \<and> hd g \<in> set g \<and> last g \<in> set g
        \<and> hd g \<le> last g"
      by simp
  qed
  have adjacent: "\<forall>i. Suc i < length ?gs \<longrightarrow>
      last (?gs ! i) < hd (?gs ! Suc i)
      \<and> (\<forall>x \<in> set ObjectIDManifest. \<not> (last (?gs ! i) < x \<and> x < hd (?gs ! Suc i)))"
  proof (intro allI impI)
    fix i assume i: "Suc i < length ?gs"
    from sorted_pieces_adjacent [OF srt ne i] cc
    show "last (?gs ! i) < hd (?gs ! Suc i)
      \<and> (\<forall>x \<in> set ObjectIDManifest. \<not> (last (?gs ! i) < x \<and> x < hd (?gs ! Suc i)))"
      by simp
  qed
  have cover: "\<forall>x \<in> set ObjectIDManifest.
      \<exists>!i. i < length ?gs \<and> hd (?gs ! i) \<le> x \<and> x \<le> last (?gs ! i)"
  proof
    fix x assume "x \<in> set ObjectIDManifest"
    with cc have "x \<in> set (concat ?gs)" by simp
    with srt ne show "\<exists>!i. i < length ?gs \<and> hd (?gs ! i) \<le> x \<and> x \<le> last (?gs ! i)"
      by (rule sorted_pieces_cover_once)
  qed
  from IterableChunk_strides [OF nz, of ObjectIDManifest] nonempty cc bounds adjacent cover
  show "\<exists>total groups.
         IterableChunk ServiceRequestMAX ObjectIDManifest = Inr (total, groups)
         \<and> groups \<noteq> []
         \<and> concat groups = ObjectIDManifest
         \<and> (\<forall>g \<in> set groups.
               group_bounds g = Inr (hd g, last g) \<and> hd g \<in> set g \<and> last g \<in> set g
               \<and> hd g \<le> last g)
         \<and> (\<forall>i. Suc i < length groups \<longrightarrow>
               last (groups ! i) < hd (groups ! Suc i)
               \<and> (\<forall>x \<in> set ObjectIDManifest.
                     \<not> (last (groups ! i) < x \<and> x < hd (groups ! Suc i))))
         \<and> (\<forall>x \<in> set ObjectIDManifest.
               \<exists>!i. i < length groups \<and> hd (groups ! i) \<le> x \<and> x \<le> last (groups ! i))"
    by blast
next
  show "IterableChunk 3 [5, 8, 9, 12, 40, 41] = Inr (2, [[5, 8, 9], [12, 40, 41]])"
    by (simp add: IterableChunk_strides strides_step)
next
  show "map group_bounds [[5, 8, 9], [12, 40, 41]] = [Inr (5, 9), Inr (12, 41)]"
    by (simp add: group_bounds_def)
qed

theorem C1_chunks_partition_manifest_witness:
  "[1, 2, 4, 7, 11] \<noteq> ([] :: int list) \<and> sorted_wrt (<) [1, 2, 4, 7, 11 :: int] \<and> (1 :: int) \<le> 2
   \<and> (\<exists>total groups.
         IterableChunk 2 [1, 2, 4, 7, 11] = Inr (total, groups)
         \<and> groups \<noteq> []
         \<and> concat groups = [1, 2, 4, 7, 11]
         \<and> (\<forall>g \<in> set groups.
               group_bounds g = Inr (hd g, last g) \<and> hd g \<in> set g \<and> last g \<in> set g
               \<and> hd g \<le> last g)
         \<and> (\<forall>i. Suc i < length groups \<longrightarrow>
               last (groups ! i) < hd (groups ! Suc i)
               \<and> (\<forall>x \<in> set [1, 2, 4, 7, 11].
                     \<not> (last (groups ! i) < x \<and> x < hd (groups ! Suc i))))
         \<and> (\<forall>x \<in> set [1, 2, 4, 7, 11].
               \<exists>!i. i < length groups \<and> hd (groups ! i) \<le> x \<and> x \<le> last (groups ! i)))"
proof -
  have h: "[1, 2, 4, 7, 11] \<noteq> ([] :: int list) \<and> sorted_wrt (<) [1, 2, 4, 7, 11 :: int]
      \<and> (1 :: int) \<le> 2"
    by simp
  from C1_chunks_partition_manifest [of "[1, 2, 4, 7, 11]" 2] h show ?thesis
    by blast
qed

lemma strides_exact:
  "0 < n \<Longrightarrow> length xs mod n = 0 \<Longrightarrow> g \<in> set (strides n xs) \<Longrightarrow> length g = n"
proof (induction n xs rule: strides.induct)
  case (1 n xs)
  show ?case
  proof (cases "xs = []")
    case True
    with "1.prems" show ?thesis by simp
  next
    case False
    with "1.prems" have ge: "n \<le> length xs"
      by (metis length_0_conv mod_less not_le)
    then have m: "length (drop n xs) mod n = 0"
      using "1.prems"(2) by (simp add: le_mod_geq)
    from "1.prems" False have "g = take n xs \<or> g \<in> set (strides n (drop n xs))"
      by (simp add: strides_step)
    then show ?thesis
    proof
      assume "g = take n xs"
      with ge show ?thesis by simp
    next
      assume "g \<in> set (strides n (drop n xs))"
      with "1.IH" "1.prems"(1) False m show ?thesis by simp
    qed
  qed
qed

lemma IterableChunk_total:
  assumes "1 \<le> ServiceRequestMAX"
  shows "IterableChunk ServiceRequestMAX ObjectIDManifest =
     Inr (int (length (strides (nat ServiceRequestMAX) ObjectIDManifest)),
          strides (nat ServiceRequestMAX) ObjectIDManifest)"
proof -
  let ?n = "nat ServiceRequestMAX" and ?l = "length ObjectIDManifest"
  from assms have n: "0 < ?n" and S: "ServiceRequestMAX = int ?n" by simp_all
  have d: "int ?l div ServiceRequestMAX = int (?l div ?n)"
    by (subst S) (simp only: zdiv_int)
  have m: "int ?l mod ServiceRequestMAX = int (?l mod ?n)"
    by (subst S) (simp only: zmod_int)
  have "int (length (strides ?n ObjectIDManifest))
      = int ?l div ServiceRequestMAX + (if int ?l mod ServiceRequestMAX > 0 then 1 else 0)"
    unfolding d m by (simp add: length_strides [OF n])
  with assms show ?thesis
    by (simp add: IterableChunk_strides)
qed

text \<open>
  C8. For a page size of at least 1 and a non-empty manifest whose length is a multiple
  of the page size, \<open>IterableChunk\<close> returns exactly length / page size chunks, each
  of them full (none is empty), and the iteration count it reports is the number of
  chunks. A manifest of 60 identifiers with page size 30 gives 2 chunks.
\<close>

theorem C8_exact_multiple_no_trailing_chunk:
  "(1 \<le> ServiceRequestMAX \<and> ObjectIDManifest \<noteq> []
      \<and> int (length ObjectIDManifest) mod ServiceRequestMAX = 0 \<longrightarrow>
      (\<exists>total_iterations groups.
         IterableChunk ServiceRequestMAX ObjectIDManifest = Inr (total_iterations, groups)
         \<and> int (length groups) = int (length ObjectIDManifest) div ServiceRequestMAX
         \<and> total_iterations = int (length groups)
         \<and> (\<forall>g \<in> set groups. g \<noteq> [] \<and> int (length g) = ServiceRequestMAX)
         \<and> concat groups = ObjectIDManifest))
   \<and> (\<exists>groups. IterableChunk 30 (map int [1..<61]) = Inr (2, groups) \<and> length groups = 2
         \<and> [] \<notin> set groups)"
proof (intro conjI impI)
  assume a: "1 \<le> ServiceRequestMAX \<and> ObjectIDManifest \<noteq> []
      \<and> int (length ObjectIDManifest) mod ServiceRequestMAX = 0"
  let ?n = "nat ServiceRequestMAX" and ?l = "length ObjectIDManifest"
  let ?gs = "strides ?n ObjectIDManifest"
  from a have n: "0 < ?n" and S: "ServiceRequestMAX = int ?n" by simp_all
  have "int ?l mod ServiceRequestMAX = int (?l mod ?n)"
    by (subst S) (simp only: zmod_int)
  with a have m: "?l mod ?n = 0" by simp
  have d: "int ?l div ServiceRequestMAX = int (?l div ?n)"
    by (subst S) (simp only: zdiv_int)
  have len: "int (length ?gs) = int ?l div ServiceRequestMAX"
    unfolding d using m by (simp add: length_strides [OF n])
  have each: "\<forall>g \<in> set ?gs. g \<noteq> [] \<and> int (length g) = ServiceRequestMAX"
    using strides_exact [OF n m] strides_nonempty S by fastforce
  from a have "IterableChunk ServiceRequestMAX ObjectIDManifest = Inr (int (length ?gs), ?gs)"
    by (intro IterableChunk_total) simp
  with len each concat_strides [OF n, of ObjectIDManifest]
  show "\<exists>total_iterations groups.
         IterableChunk ServiceRequestMAX ObjectIDManifest = Inr (total_iterations, groups)
         \<and> int (length groups) = int (length ObjectIDManifest) div ServiceRequestMAX
         \<and> total_iterations = int (length groups)
         \<and> (\<forall>g \<in> set groups. g \<noteq> [] \<and> int (length g) = ServiceRequestMAX)
         \<and> concat groups = ObjectIDManifest"
    by blast
next
  let ?gs = "strides (nat 30) (map int [1..<61])"
  have "length ?gs = 2"
    by (simp add: length_strides)
  moreover from this have "IterableChunk 30 (map int [1..<61]) = Inr (2, ?gs)"
    using IterableChunk_total [of 30 "map int [1..<61]"] by simp
  moreover have "[] \<notin> set ?gs"
    using strides_nonempty by blast
  ultimately show "\<exists>groups. IterableChunk 30 (map int [1..<61]) = Inr (2, groups)
      \<and> length groups = 2 \<and> [] \<notin> set groups"
    by blast
qed

theorem C8_exact_multiple_no_trailing_chunk_witness:
  "(1 :: int) \<le> 2 \<and> [3, 4, 8, 9] \<noteq> ([] :: int list) \<and> int (length [3, 4, 8, 9 :: int]) mod 2 = 0
   \<and> IterableChunk 2 [3, 4, 8, 9] = Inr (2, [[3, 4], [8, 9]])
   \<and> (\<exists>total_iterations groups.
         IterableChunk 2 [3, 4, 8, 9] = Inr (total_iterations, groups)
         \<and> int (length groups) = int (length [3, 4, 8, 9 :: int]) div 2
         \<and> total_iterations = int (length groups)
         \<and> (\<forall>g \<in> set groups. g \<noteq> [] \<and> int (length g) = 2)
         \<and> concat groups = [3, 4, 8, 9])"
proof -
  have h: "(1 :: int) \<le> 2 \<and> [3, 4, 8, 9] \<noteq> ([] :: int list)
      \<and> int (length [3, 4, 8, 9 :: int]) mod 2 = 0"
    by simp
  have e: "IterableChunk 2 [3, 4, 8, 9] = Inr (2, [[3, 4], [8, 9]])"
    by (simp add: IterableChunk_strides strides_step)
  from C8_exact_multiple_no_trailing_chunk [of 2 "[3, 4, 8, 9]"] h e show ?thesis
    by blast
qed

section \<open>Properties of the extraction client\<close>

lemma retry_loop_done:
  "ok r \<Longrightarrow> response_flag w \<Longrightarrow> retry_loop url t r w = (Done r, w)"
  by (subst retry_loop.simps) simp

lemma retry_loop_step:
  "\<not> ok r \<or> \<not> response_flag w \<Longrightarrow> net w = Response r' # rest \<Longrightarrow>
   retry_loop url t r w =
     retry_loop url (t * 2) r'
       (w\<lparr>net := rest, events := events w @ [Sleep (t * 2), Get url],
          response_flag := \<not> bytes_in server_error_message (content r')\<rparr>)"
  by (subst retry_loop.simps) (auto simp: session_get_def time_sleep_def log_def Let_def)

lemma retry_loop_blocked:
  "\<not> ok r \<or> \<not> response_flag w \<Longrightarrow> net w = [] \<Longrightarrow>
   retry_loop url t r w =
     (Blocked, w\<lparr>events := events w @ [Sleep (t * 2), Get url]\<rparr>)"
  by (subst retry_loop.simps) (auto simp: session_get_def time_sleep_def log_def Let_def)

lemma retry_loop_raised:
  "\<not> ok r \<or> \<not> response_flag w \<Longrightarrow> net w = ConnectionFailed # rest \<Longrightarrow>
   retry_loop url t r w =
     (Raised ConnectionError, w\<lparr>net := rest, events := events w @ [Sleep (t * 2), Get url]\<rparr>)"
  by (subst retry_loop.simps) (auto simp: session_get_def time_sleep_def log_def Let_def)

lemma retry_loop_failures:
  "\<forall>r \<in> set fs. failed r \<Longrightarrow> \<not> failed s \<Longrightarrow> net w = map Response fs @ Response s # rest \<Longrightarrow>
   \<not> ok r0 \<or> \<not> response_flag w \<Longrightarrow>
   retry_loop url t r0 w =
     (Done s, w\<lparr>net := rest, events := events w @ backoff_events url t (Suc (length fs)),
                 response_flag := True\<rparr>)"
proof (induction fs arbitrary: t r0 w)
  case Nil
  then show ?case
    by (simp add: retry_loop_step retry_loop_done failed_def)
next
  case (Cons f fs)
  let ?w = "w\<lparr>net := map Response fs @ Response s # rest,
               events := events w @ [Sleep (t * 2), Get url],
               response_flag := \<not> bytes_in server_error_message (content f)\<rparr>"
  from Cons.prems have step: "retry_loop url t r0 w = retry_loop url (t * 2) f ?w"
    by (simp add: retry_loop_step)
  from Cons.prems have "\<not> ok f \<or> \<not> response_flag ?w"
    by (auto simp: failed_def)
  with Cons.IH [of ?w f "t * 2"] Cons.prems show ?case
    by (simp add: step)
qed



lemma retry_loop_returns:
  "retry_loop url t r w = (Done r', w') \<Longrightarrow>
   ok r' \<and> response_flag w' \<and> (r' = r \<and> w' = w \<or> \<not> bytes_in server_error_message (content r'))"
proof (induction url t r w rule: retry_loop.induct)
  case (1 queryURL sleep_timer response w)
  show ?case
  proof (cases "\<not> ok response \<or> response_flag w = False")
    case False
    with "1.prems" show ?thesis
      by (simp add: retry_loop_done)
  next
    case True
    show ?thesis
    proof (cases "net w")
      case Nil
      with True "1.prems" show ?thesis
        by (simp add: retry_loop_blocked)
    next
      case (Cons a rest)
      show ?thesis
      proof (cases a)
        case ConnectionFailed
        with Cons True "1.prems" show ?thesis
          by (simp add: retry_loop_raised)
      next
        case (Response x)
        let ?w2 = "log (Get queryURL) (time_sleep (sleep_timer * 2) w\<lparr>net := rest\<rparr>)"
        have sg: "session_get queryURL (time_sleep (sleep_timer * 2) w) = (Done x, ?w2)"
          using Cons Response by (simp add: session_get_def time_sleep_def log_def)
        let ?w3 = "if bytes_in server_error_message (content x)
                   then ?w2\<lparr>response_flag := False\<rparr> else ?w2\<lparr>response_flag := True\<rparr>"
        have eq: "retry_loop queryURL sleep_timer response w
                  = retry_loop queryURL (sleep_timer * 2) x ?w3"
          using True sg by (subst retry_loop.simps) (simp add: Let_def)
        with "1.prems" have "retry_loop queryURL (sleep_timer * 2) x ?w3 = (Done r', w')"
          by simp
        from "1.IH" [OF True refl refl sg [symmetric] refl this]
        have "ok r' \<and> response_flag w' \<and>
              (r' = x \<and> w' = ?w3 \<or> \<not> bytes_in server_error_message (content r'))" .
        then show ?thesis
          by (auto split: if_splits)
      qed
    qed
  qed
qed


lemma sleeps_of_append: "sleeps_of (xs @ ys) = sleeps_of xs @ sleeps_of ys"
  by (induction xs rule: sleeps_of.induct) simp_all

lemma gets_of_append: "gets_of (xs @ ys) = gets_of xs @ gets_of ys"
  by (induction xs rule: gets_of.induct) simp_all

lemma writes_of_append: "writes_of (xs @ ys) = writes_of xs @ writes_of ys"
  by (induction xs rule: writes_of.induct) simp_all

lemma sleeps_of_backoff:
  "sleeps_of (backoff_events url t k) = map (\<lambda>i. t * 2 ^ i) [1..<Suc k]"
proof (induction k arbitrary: t)
  case 0
  then show ?case by simp
next
  case (Suc k)
  have "map (\<lambda>i. t * 2 ^ i) [1..<Suc (Suc k)] = t * 2 # map (\<lambda>i. t * 2 ^ i) (map Suc [1..<Suc k])"
    by (simp add: upt_conv_Cons map_Suc_upt del: upt_Suc)
  also have "map (\<lambda>i. t * 2 ^ i) (map Suc [1..<Suc k]) = map (\<lambda>i. t * 2 * 2 ^ i) [1..<Suc k]"
    by simp
  finally show ?case
    using Suc.IH [of "t * 2"] by simp
qed

lemma gets_of_backoff: "gets_of (backoff_events url t k) = replicate k url"
  by (induction k arbitrary: t) simp_all

lemma writes_of_backoff: "writes_of (backoff_events url t k) = []"
  by (induction k arbitrary: t) simp_all

lemma backoff_sleeps_large: "e \<in> set (backoff_events url t k) \<Longrightarrow> e = Sleep n \<Longrightarrow> 2 * t \<le> n"
proof (induction k arbitrary: t)
  case 0
  then show ?case by simp
next
  case (Suc k)
  then show ?case by fastforce
qed

lemma QueryExtractionRequest_served:
  assumes fs: "\<forall>r \<in> set fs. failed r" and s: "\<not> failed s"
    and net: "net w = map Response fs @ Response s # rest"
    and flag: "response_flag w"
  shows "QueryExtractionRequest mn mx f u w =
     (Done (),
      w\<lparr>net := rest,
        events := events w @ Get (queryURL_of mn mx f u) # Sleep query_request_standard_pause
                    # backoff_events (queryURL_of mn mx f u) 30 (length fs)
                    @ [WriteFile (staged_name (json_file_iterator w)) (content s)],
        out_json_folder :=
          write_file (staged_name (json_file_iterator w)) (content s) (out_json_folder w)\<rparr>)"
proof (cases fs)
  case Nil
  with s net flag show ?thesis
    by (simp add: QueryExtractionRequest_def session_get_def time_sleep_def log_def Let_def
        failed_def retry_loop_done open_write_def staged_name_def)
next
  case (Cons r0 fs')
  let ?url = "queryURL_of mn mx f u"
  let ?w1 = "log (Get ?url) (w\<lparr>net := map Response fs' @ Response s # rest\<rparr>)"
  let ?w2 = "if bytes_in server_error_message (content r0)
             then ?w1\<lparr>response_flag := False\<rparr> else ?w1"
  let ?w3 = "time_sleep query_request_standard_pause ?w2"
  have sg: "session_get ?url w = (Done r0, ?w1)"
    using net Cons by (simp add: session_get_def)
  have n3: "net ?w3 = map Response fs' @ Response s # rest"
    by (simp add: time_sleep_def log_def)
  from fs Cons have "failed r0" by simp
  with flag have c3: "\<not> ok r0 \<or> \<not> response_flag ?w3"
    by (auto simp: failed_def time_sleep_def log_def)
  from fs Cons have fs': "\<forall>r \<in> set fs'. failed r" by simp
  note loop = retry_loop_failures [OF fs' s n3 c3, of ?url 30]
  show ?thesis
    unfolding QueryExtractionRequest_def Let_def sg prod.case result.case loop
    using flag Cons
    by (simp add: open_write_def time_sleep_def log_def staged_name_def)
qed

lemma startswith_iff: "startswith hay prefix \<longleftrightarrow> (\<exists>q. hay = prefix @ q)"
  by (induction hay prefix rule: startswith.induct) auto

lemma bytes_in_iff: "bytes_in needle hay \<longleftrightarrow> (\<exists>p q. hay = p @ needle @ q)"
proof (induction hay)
  case Nil
  then show ?case by auto
next
  case (Cons y ys)
  have "(\<exists>p q. y # ys = p @ needle @ q)
        \<longleftrightarrow> (\<exists>q. y # ys = needle @ q) \<or> (\<exists>p q. ys = p @ needle @ q)"
  proof
    assume "\<exists>p q. y # ys = p @ needle @ q"
    then obtain p q where pq: "y # ys = p @ needle @ q" by blast
    show "(\<exists>q. y # ys = needle @ q) \<or> (\<exists>p q. ys = p @ needle @ q)"
    proof (cases p)
      case Nil
      with pq show ?thesis by auto
    next
      case (Cons a p')
      with pq have "ys = p' @ needle @ q" by simp
      then show ?thesis by blast
    qed
  next
    assume "(\<exists>q. y # ys = needle @ q) \<or> (\<exists>p q. ys = p @ needle @ q)"
    then show "\<exists>p q. y # ys = p @ needle @ q"
    proof
      assume "\<exists>q. y # ys = needle @ q"
      then obtain q where "y # ys = [] @ needle @ q" by auto
      then show ?thesis by blast
    next
      assume "\<exists>p q. ys = p @ needle @ q"
      then obtain p q where "y # ys = (y # p) @ needle @ q" by auto
      then show ?thesis by blast
    qed
  qed
  with Cons show ?case
    by (simp add: startswith_iff)
qed

lemma failed_soft_error: "failed soft_error"
  by (simp add: failed_def soft_error_def bytes_in_iff) (metis append_Nil append_Nil2)

lemma failed_hard_failure: "failed hard_failure"
  by (simp add: failed_def hard_failure_def)

lemma not_failed_success: "\<not> failed success"
  by (simp add: failed_def success_def server_error_message_def)

lemma replicate_numeral: "replicate (numeral k) x = x # replicate (pred_numeral k) x"
  by (simp add: numeral_eq_Suc)

lemma staged_name_3: "staged_name 3 = ''000003.json''"
  by (simp add: staged_name_def zfill_def str_nat.simps digit_char_def replicate_numeral)



lemma retry_loop_all_failed:
  "\<forall>r \<in> set fs. failed r \<Longrightarrow> net w = map Response fs \<Longrightarrow> \<not> ok r0 \<or> \<not> response_flag w \<Longrightarrow>
   \<exists>w'. retry_loop url t r0 w = (Blocked, w')
        \<and> events w' = events w @ backoff_events url t (Suc (length fs))"
proof (induction fs arbitrary: t r0 w)
  case Nil
  then show ?case
    by (simp add: retry_loop_blocked)
next
  case (Cons f fs)
  let ?w = "w\<lparr>net := map Response fs,
               events := events w @ [Sleep (t * 2), Get url],
               response_flag := \<not> bytes_in server_error_message (content f)\<rparr>"
  from Cons.prems have step: "retry_loop url t r0 w = retry_loop url (t * 2) f ?w"
    by (simp add: retry_loop_step)
  from Cons.prems have "\<not> ok f \<or> \<not> response_flag ?w"
    by (auto simp: failed_def)
  with Cons.IH [of ?w f "t * 2"] Cons.prems show ?case
    by (simp add: step)
qed

lemma QueryExtractionRequest_all_failed:
  assumes fs: "\<forall>r \<in> set fs. failed r" and net: "net w = map Response fs"
    and flag: "response_flag w"
  shows "\<exists>w'. QueryExtractionRequest mn mx f u w = (Blocked, w')
     \<and> gets_of (events w') = gets_of (events w) @ replicate (Suc (length fs)) (queryURL_of mn mx f u)"
proof (cases fs)
  case Nil
  with net show ?thesis
    by (simp add: QueryExtractionRequest_def session_get_def log_def Let_def gets_of_append)
next
  case (Cons r0 fs')
  let ?url = "queryURL_of mn mx f u"
  let ?w1 = "log (Get ?url) (w\<lparr>net := map Response fs'\<rparr>)"
  let ?w2 = "if bytes_in server_error_message (content r0)
             then ?w1\<lparr>response_flag := False\<rparr> else ?w1"
  let ?w3 = "time_sleep query_request_standard_pause ?w2"
  have sg: "session_get ?url w = (Done r0, ?w1)"
    using net Cons by (simp add: session_get_def)
  have n3: "net ?w3 = map Response fs'"
    by (simp add: time_sleep_def log_def)
  have e3: "events ?w3 = events w @ [Get ?url, Sleep query_request_standard_pause]"
    by (simp add: time_sleep_def log_def)
  from fs Cons have "failed r0" by simp
  with flag have c3: "\<not> ok r0 \<or> \<not> response_flag ?w3"
    by (auto simp: failed_def time_sleep_def log_def)
  from fs Cons have fs': "\<forall>r \<in> set fs'. failed r" by simp
  from retry_loop_all_failed [OF fs' n3 c3, of ?url 30] obtain w' where
    loop: "retry_loop ?url 30 r0 ?w3 = (Blocked, w')"
    and ev: "events w' = events ?w3 @ backoff_events ?url 30 (Suc (length fs'))"
    by blast
  have "QueryExtractionRequest mn mx f u w = (Blocked, w')"
    unfolding QueryExtractionRequest_def Let_def sg prod.case result.case loop by simp
  moreover have "gets_of (events w') = gets_of (events w) @ replicate (Suc (length fs)) ?url"
    unfolding ev e3 using Cons
    by (simp add: gets_of_append gets_of_backoff replicate_append_same)
  ultimately show ?thesis by blast
qed

text \<open>
  C4. Entered with the flag set, on a trace of any number of responses that are hard
  failures (not ok) or soft failures (sentinel in the body) followed by an accepted
  response, \<open>QueryExtractionRequest\<close> returns after one request per response, every
  request to the one query URL built from its arguments; after the standard pause it
  sleeps 60, 120, 240, ... (30 doubled once more at every failure, with no cap), and it
  writes the body of the accepted response. On a trace of failures only it has issued
  one request more than there are responses and still waits: it never gives up.
\<close>

theorem C4_retry_same_query_doubling_unbounded:
  "response_flag w \<and> (\<forall>r \<in> set fs. failed r) \<longrightarrow>
     (\<not> failed s \<and> net w = map Response fs @ Response s # rest \<longrightarrow>
        (\<exists>w' new.
           QueryExtractionRequest mn mx f u w = (Done (), w')
           \<and> events w' = events w @ new
           \<and> gets_of new = replicate (Suc (length fs)) (queryURL_of mn mx f u)
           \<and> sleeps_of new
               = query_request_standard_pause # map (\<lambda>i. 30 * 2 ^ i) [1..<Suc (length fs)]
           \<and> writes_of new = [(staged_name (json_file_iterator w), content s)]
           \<and> net w' = rest))
   \<and> (net w = map Response fs \<longrightarrow>
        (\<exists>w'. QueryExtractionRequest mn mx f u w = (Blocked, w')
           \<and> gets_of (events w')
               = gets_of (events w) @ replicate (Suc (length fs)) (queryURL_of mn mx f u)))"
proof (intro impI conjI)
  assume a: "response_flag w \<and> (\<forall>r \<in> set fs. failed r)"
    and b: "\<not> failed s \<and> net w = map Response fs @ Response s # rest"
  let ?url = "queryURL_of mn mx f u"
  let ?new = "Get ?url # Sleep query_request_standard_pause # backoff_events ?url 30 (length fs)
                @ [WriteFile (staged_name (json_file_iterator w)) (content s)]"
  from a b have served: "QueryExtractionRequest mn mx f u w =
     (Done (),
      w\<lparr>net := rest, events := events w @ ?new,
        out_json_folder :=
          write_file (staged_name (json_file_iterator w)) (content s) (out_json_folder w)\<rparr>)"
    by (intro QueryExtractionRequest_served) simp_all
  have g: "gets_of ?new = replicate (Suc (length fs)) ?url"
    by (simp add: gets_of_append gets_of_backoff)
  have sl: "sleeps_of ?new
      = query_request_standard_pause # map (\<lambda>i. 30 * 2 ^ i) [1..<Suc (length fs)]"
    by (simp only: sleeps_of.simps sleeps_of_append sleeps_of_backoff append_Nil2)
  have wr: "writes_of ?new = [(staged_name (json_file_iterator w), content s)]"
    by (simp add: writes_of_append writes_of_backoff)
  from served g sl wr show "\<exists>w' new.
           QueryExtractionRequest mn mx f u w = (Done (), w')
           \<and> events w' = events w @ new
           \<and> gets_of new = replicate (Suc (length fs)) (queryURL_of mn mx f u)
           \<and> sleeps_of new
               = query_request_standard_pause # map (\<lambda>i. 30 * 2 ^ i) [1..<Suc (length fs)]
           \<and> writes_of new = [(staged_name (json_file_iterator w), content s)]
           \<and> net w' = rest"
    by (intro exI [of _ "w\<lparr>net := rest, events := events w @ ?new,
        out_json_folder :=
          write_file (staged_name (json_file_iterator w)) (content s) (out_json_folder w)\<rparr>"]
        exI [of _ ?new]) simp
next
  assume a: "response_flag w \<and> (\<forall>r \<in> set fs. failed r)" and b: "net w = map Response fs"
  then show "\<exists>w'. QueryExtractionRequest mn mx f u w = (Blocked, w')
           \<and> gets_of (events w')
               = gets_of (events w) @ replicate (Suc (length fs)) (queryURL_of mn mx f u)"
    by (intro QueryExtractionRequest_all_failed) simp_all
qed


theorem C4_retry_same_query_doubling_unbounded_witness:
  "(response_flag (idle_world\<lparr>net := map Response [hard_failure, soft_error, hard_failure]
                                  @ Response success # []\<rparr>)
    \<and> failed hard_failure \<and> failed soft_error
    \<and> \<not> failed success
    \<and> (\<exists>w' new.
          QueryExtractionRequest ''5'' ''9'' ''OBJECTID'' ''https://host/FeatureServer/0''
            (idle_world\<lparr>net := map Response [hard_failure, soft_error, hard_failure]
                                  @ Response success # []\<rparr>) = (Done (), w')
          \<and> events w' = new
          \<and> gets_of new
              = replicate 4 (queryURL_of ''5'' ''9'' ''OBJECTID'' ''https://host/FeatureServer/0'')
          \<and> sleeps_of new = [10, 60, 120, 240]
          \<and> writes_of new = [(''000000.json'', content success)]))
   \<and> (\<exists>w'. QueryExtractionRequest ''5'' ''9'' ''OBJECTID'' ''https://host/FeatureServer/0''
              (idle_world\<lparr>net := map Response [hard_failure, soft_error]\<rparr>) = (Blocked, w')
          \<and> gets_of (events w')
              = replicate 3 (queryURL_of ''5'' ''9'' ''OBJECTID'' ''https://host/FeatureServer/0''))"
proof -
  let ?w = "idle_world\<lparr>net := map Response [hard_failure, soft_error, hard_failure]
                                  @ Response success # []\<rparr>"
  let ?v = "idle_world\<lparr>net := map Response [hard_failure, soft_error]\<rparr>"
  have h: "response_flag ?w \<and> (\<forall>r \<in> set [hard_failure, soft_error, hard_failure]. failed r)"
    and k: "\<not> failed success" 
    and h2: "response_flag ?v \<and> (\<forall>r \<in> set [hard_failure, soft_error]. failed r)"
    by (simp_all add: idle_world_def failed_soft_error failed_hard_failure not_failed_success)
  have n0: "staged_name 0 = ''000000.json''"
    by (simp add: staged_name_def zfill_def str_nat.simps digit_char_def replicate_numeral)
  have up: "map (\<lambda>i. 30 * 2 ^ i) [1..<Suc (length [hard_failure, soft_error, hard_failure])]
      = [60, 120, 240 :: nat]"
    by (simp add: upt_rec)
  have r4: "replicate (Suc (length [hard_failure, soft_error, hard_failure])) x = replicate 4 x"
    for x :: string
    by (simp add: replicate_numeral)
  have r3: "replicate (Suc (length [hard_failure, soft_error])) x = replicate 3 x"
    for x :: string
    by (simp add: replicate_numeral)
  have ev: "events ?w = []" "gets_of (events ?v) = []" "json_file_iterator ?w = 0"
    by (simp_all add: idle_world_def)
  have netw: "net ?w = map Response [hard_failure, soft_error, hard_failure] @ Response success # []"
    and netv: "net ?v = map Response [hard_failure, soft_error]"
    by (simp_all add: idle_world_def)
  from C4_retry_same_query_doubling_unbounded
    [of ?w "[hard_failure, soft_error, hard_failure]" success "[]"
      "''5''" "''9''" "''OBJECTID''" "''https://host/FeatureServer/0''"] h k netw
  have "\<exists>w' new.
          QueryExtractionRequest ''5'' ''9'' ''OBJECTID'' ''https://host/FeatureServer/0'' ?w
            = (Done (), w')
          \<and> events w' = events ?w @ new
          \<and> gets_of new
              = replicate (Suc (length [hard_failure, soft_error, hard_failure]))
                  (queryURL_of ''5'' ''9'' ''OBJECTID'' ''https://host/FeatureServer/0'')
          \<and> sleeps_of new = query_request_standard_pause
               # map (\<lambda>i. 30 * 2 ^ i) [1..<Suc (length [hard_failure, soft_error, hard_failure])]
          \<and> writes_of new = [(staged_name (json_file_iterator ?w), content success)]"
    by blast
  then have first: "\<exists>w' new.
          QueryExtractionRequest ''5'' ''9'' ''OBJECTID'' ''https://host/FeatureServer/0'' ?w
            = (Done (), w')
          \<and> events w' = new
          \<and> gets_of new
              = replicate 4 (queryURL_of ''5'' ''9'' ''OBJECTID'' ''https://host/FeatureServer/0'')
          \<and> sleeps_of new = [10, 60, 120, 240]
          \<and> writes_of new = [(''000000.json'', content success)]"
    unfolding up r4 ev n0 append_Nil query_request_standard_pause_def .
  from C4_retry_same_query_doubling_unbounded
    [of ?v "[hard_failure, soft_error]" _ _
      "''5''" "''9''" "''OBJECTID''" "''https://host/FeatureServer/0''"] h2 netv
  have "\<exists>w'. QueryExtractionRequest ''5'' ''9'' ''OBJECTID'' ''https://host/FeatureServer/0'' ?v
              = (Blocked, w')
          \<and> gets_of (events w')
              = gets_of (events ?v) @ replicate (Suc (length [hard_failure, soft_error]))
                  (queryURL_of ''5'' ''9'' ''OBJECTID'' ''https://host/FeatureServer/0'')"
    by blast
  then have second: "\<exists>w'. QueryExtractionRequest ''5'' ''9'' ''OBJECTID'' ''https://host/FeatureServer/0'' ?v
              = (Blocked, w')
          \<and> gets_of (events w')
              = replicate 3 (queryURL_of ''5'' ''9'' ''OBJECTID'' ''https://host/FeatureServer/0'')"
    unfolding r3 ev append_Nil .
  from first second h k show ?thesis by simp
qed

section \<open>What a call leaves unchanged\<close>

lemma retry_loop_frame:
  "retry_loop url t r w = (res, w') \<Longrightarrow> net w = ns \<Longrightarrow>
   json_file_iterator w' = json_file_iterator w \<and> out_json_folder w' = out_json_folder w
   \<and> intermediate_gdb w' = intermediate_gdb w \<and> final_featureclass w' = final_featureclass w
   \<and> (\<exists>evs. events w' = events w @ evs \<and> list_all network_only evs)"
proof (induction ns arbitrary: t r w)
  case Nil
  then show ?case
    by (cases "\<not> ok r \<or> \<not> response_flag w") (auto simp: retry_loop_blocked retry_loop_done)
next
  case (Cons a ns)
  show ?case
  proof (cases "\<not> ok r \<or> \<not> response_flag w")
    case False
    with Cons.prems show ?thesis by (auto simp: retry_loop_done)
  next
    case True
    show ?thesis
    proof (cases a)
      case ConnectionFailed
      with True Cons.prems show ?thesis by (auto simp: retry_loop_raised)
    next
      case (Response x)
      let ?w = "w\<lparr>net := ns, events := events w @ [Sleep (t * 2), Get url],
                   response_flag := \<not> bytes_in server_error_message (content x)\<rparr>"
      from True Cons.prems Response have "retry_loop url (t * 2) x ?w = (res, w')"
        by (simp add: retry_loop_step)
      from Cons.IH [OF this] obtain evs where
        "json_file_iterator w' = json_file_iterator w" "out_json_folder w' = out_json_folder w"
        "intermediate_gdb w' = intermediate_gdb w" "final_featureclass w' = final_featureclass w"
        "events w' = events w @ [Sleep (t * 2), Get url] @ evs" "list_all network_only evs"
        by auto
      then show ?thesis by simp
    qed
  qed
qed

lemma writes_of_network_only: "list_all network_only evs \<Longrightarrow> writes_of evs = []"
  by (induction evs rule: writes_of.induct) simp_all

lemma QueryExtractionRequest_returns:
  assumes "QueryExtractionRequest mn mx f u w = (Done (), w')"
  shows "\<exists>new body. events w' = events w @ new
      \<and> writes_of new = [(staged_name (json_file_iterator w), body)]
      \<and> \<not> bytes_in server_error_message body
      \<and> out_json_folder w' = write_file (staged_name (json_file_iterator w)) body (out_json_folder w)
      \<and> json_file_iterator w' = json_file_iterator w
      \<and> intermediate_gdb w' = intermediate_gdb w
      \<and> final_featureclass w' = final_featureclass w
      \<and> response_flag w'"
proof -
  let ?url = "queryURL_of mn mx f u"
  from assms obtain r w1 where sg: "session_get ?url w = (Done r, w1)"
    by (auto simp: QueryExtractionRequest_def Let_def split: prod.splits result.splits)
  then have w1: "w1 = log (Get ?url) (w\<lparr>net := tl (net w)\<rparr>)"
    by (auto simp: session_get_def split: list.splits http_result.splits)
  let ?w2 = "if bytes_in server_error_message (content r) then w1\<lparr>response_flag := False\<rparr> else w1"
  let ?w3 = "time_sleep query_request_standard_pause ?w2"
  from assms sg obtain r' w4 where loop: "retry_loop ?url 30 r ?w3 = (Done r', w4)"
    and w': "w' = open_write (staged_name (json_file_iterator w4)) (content r') w4"
    by (auto simp: QueryExtractionRequest_def Let_def staged_name_def
        split: prod.splits result.splits)
  from retry_loop_returns [OF loop] have ok: "ok r'" and flag: "response_flag w4"
    and alt: "r' = r \<and> w4 = ?w3 \<or> \<not> bytes_in server_error_message (content r')"
    by simp_all
  have clean: "\<not> bytes_in server_error_message (content r')"
  proof (rule ccontr)
    assume c: "\<not> \<not> bytes_in server_error_message (content r')"
    with alt have "r' = r" "w4 = ?w3" by simp_all
    with c have "\<not> response_flag w4" by (simp add: time_sleep_def log_def)
    with flag show False by simp
  qed
  from retry_loop_frame [OF loop refl] obtain evs where
    fr: "json_file_iterator w4 = json_file_iterator ?w3" "out_json_folder w4 = out_json_folder ?w3"
      "intermediate_gdb w4 = intermediate_gdb ?w3" "final_featureclass w4 = final_featureclass ?w3"
    and ev: "events w4 = events ?w3 @ evs" and no: "list_all network_only evs"
    by blast
  have e3: "events ?w3 = events w @ [Get ?url, Sleep query_request_standard_pause]"
    and j3: "json_file_iterator ?w3 = json_file_iterator w"
    and o3: "out_json_folder ?w3 = out_json_folder w"
    and i3: "intermediate_gdb ?w3 = intermediate_gdb w"
    and f3: "final_featureclass ?w3 = final_featureclass w"
    by (simp_all add: w1 time_sleep_def log_def)
  let ?new = "[Get ?url, Sleep query_request_standard_pause] @ evs
      @ [WriteFile (staged_name (json_file_iterator w)) (content r')]"
  have "events w' = events w @ ?new"
    by (simp add: w' open_write_def log_def ev e3 fr j3)
  moreover have "writes_of ?new = [(staged_name (json_file_iterator w), content r')]"
    by (simp add: writes_of_append writes_of_network_only [OF no])
  moreover have "out_json_folder w'
      = write_file (staged_name (json_file_iterator w)) (content r') (out_json_folder w)"
    by (simp add: w' open_write_def log_def fr j3 o3)
  moreover have "json_file_iterator w' = json_file_iterator w"
    "intermediate_gdb w' = intermediate_gdb w" "final_featureclass w' = final_featureclass w"
    "response_flag w'"
    by (simp_all add: w' open_write_def log_def fr j3 i3 f3 flag)
  ultimately show ?thesis using clean by blast
qed

lemma for_each_append:
  "for_each body (xs @ ys) w = and_then (for_each body xs w) (\<lambda>_ w'. for_each body ys w')"
proof (induction xs arbitrary: w)
  case Nil
  then show ?case by (simp add: and_then_def)
next
  case (Cons x xs)
  then show ?case
    by (cases "body x w") (auto simp: and_then_def split: result.splits)
qed

lemma extract_group_flag:
  "extract_group f u g w = (Done (), w') \<Longrightarrow> response_flag w'"
  by (auto simp: extract_group_def Let_def split: sum.splits prod.splits
      dest: QueryExtractionRequest_returns)

lemma extraction_loop_flag:
  "response_flag w \<Longrightarrow> for_each (extract_group f u) gs w = (Done (), w') \<Longrightarrow> response_flag w'"
proof (induction gs arbitrary: w)
  case Nil
  then show ?case by simp
next
  case (Cons g gs)
  from Cons.prems(2) obtain w1 where g: "extract_group f u g w = (Done (), w1)"
    and rest: "for_each (extract_group f u) gs w1 = (Done (), w')"
    by (cases "extract_group f u g w") (auto simp: and_then_def split: result.splits)
  from extract_group_flag [OF g] Cons.IH [OF _ rest] show ?case by simp
qed

section \<open>The place of the standard pause\<close>

lemma backoff_ends_with_get:
  "\<exists>pre. backoff_events url t (Suc k) = pre @ [Get url]"
proof (induction k arbitrary: t)
  case 0
  show ?case by simp
next
  case (Suc k)
  from Suc [of "t * 2"] obtain pre where "backoff_events url (t * 2) (Suc k) = pre @ [Get url]"
    by blast
  then have "backoff_events url t (Suc (Suc k)) = (Sleep (t * 2) # Get url # pre) @ [Get url]"
    by simp
  then show ?case by blast
qed

lemma pause_not_in_backoff:
  "Sleep query_request_standard_pause \<notin> set (backoff_events url 30 k)"
  using backoff_sleeps_large [of "Sleep query_request_standard_pause" url 30 k
      query_request_standard_pause]
  by (auto simp: query_request_standard_pause_def)

lemma pause_position:
  "pause_after_final_response
     (Get url # Sleep query_request_standard_pause # backoff_events url 30 k @ [WriteFile n b])
   = (k = 0)"
proof (cases k)
  case 0
  then show ?thesis by (simp add: pause_after_final_response_def)
next
  case (Suc j)
  from backoff_ends_with_get [of url 30 j] obtain pre where
    "backoff_events url 30 (Suc j) = pre @ [Get url]" by blast
  with Suc show ?thesis by (simp add: pause_after_final_response_def)
qed

text \<open>
  C2 (as the code has it). Entered with the flag set, on a trace of failures followed by
  an accepted response, \<open>QueryExtractionRequest\<close> pauses for the standard interval
  exactly once, and that pause is its second event: it comes right after the first
  request, before any retry and whether or not the first response was accepted. The
  retries follow, one per failure, after sleeps of 60, 120, ... The pause comes after
  the final response only when there was no failure.
\<close>

theorem C2_pause_follows_first_response:
  "response_flag w \<and> (\<forall>r \<in> set fs. failed r) \<and> \<not> failed s
     \<and> net w = map Response fs @ Response s # rest \<longrightarrow>
   (\<exists>w' new.
      QueryExtractionRequest mn mx f u w = (Done (), w')
      \<and> events w' = events w @ new
      \<and> take 2 new = [Get (queryURL_of mn mx f u), Sleep query_request_standard_pause]
      \<and> count_list new (Sleep query_request_standard_pause) = 1
      \<and> gets_of new = replicate (Suc (length fs)) (queryURL_of mn mx f u)
      \<and> sleeps_of (drop 2 new) = map (\<lambda>i. 30 * 2 ^ i) [1..<Suc (length fs)]
      \<and> pause_after_final_response new = (fs = []))"
proof
  assume a: "response_flag w \<and> (\<forall>r \<in> set fs. failed r) \<and> \<not> failed s
     \<and> net w = map Response fs @ Response s # rest"
  let ?url = "queryURL_of mn mx f u"
  let ?new = "Get ?url # Sleep query_request_standard_pause # backoff_events ?url 30 (length fs)
                @ [WriteFile (staged_name (json_file_iterator w)) (content s)]"
  let ?w' = "w\<lparr>net := rest, events := events w @ ?new,
        out_json_folder :=
          write_file (staged_name (json_file_iterator w)) (content s) (out_json_folder w)\<rparr>"
  from a have served: "QueryExtractionRequest mn mx f u w = (Done (), ?w')"
    by (intro QueryExtractionRequest_served) simp_all
  have ev: "events ?w' = events w @ ?new" by simp
  have t2: "take 2 ?new = [Get ?url, Sleep query_request_standard_pause]"
    by (simp add: numeral_2_eq_2)
  have "count_list (backoff_events ?url 30 (length fs)) (Sleep query_request_standard_pause) = 0"
    using pause_not_in_backoff by (simp add: count_list_0_iff)
  then have cnt: "count_list ?new (Sleep query_request_standard_pause) = 1"
    by simp
  have g: "gets_of ?new = replicate (Suc (length fs)) ?url"
    by (simp add: gets_of_append gets_of_backoff)
  have sl: "sleeps_of (drop 2 ?new) = map (\<lambda>i. 30 * 2 ^ i) [1..<Suc (length fs)]"
    by (simp add: numeral_2_eq_2 sleeps_of_append sleeps_of_backoff del: upt_Suc)
  have pos: "pause_after_final_response ?new = (fs = [])"
    by (simp add: pause_position)
  from served ev t2 cnt g sl pos show "\<exists>w' new.
      QueryExtractionRequest mn mx f u w = (Done (), w')
      \<and> events w' = events w @ new
      \<and> take 2 new = [Get (queryURL_of mn mx f u), Sleep query_request_standard_pause]
      \<and> count_list new (Sleep query_request_standard_pause) = 1
      \<and> gets_of new = replicate (Suc (length fs)) (queryURL_of mn mx f u)
      \<and> sleeps_of (drop 2 new) = map (\<lambda>i. 30 * 2 ^ i) [1..<Suc (length fs)]
      \<and> pause_after_final_response new = (fs = [])"
    by blast
qed

text \<open>
  The statement that the pause follows the final successful response fails on the
  responses soft error, hard failure, success: the pause of 10 is the second event, and
  nothing but the write follows the last request.
\<close>

theorem C2_pause_after_final_success_counterexample:
  "events (snd (QueryExtractionRequest ''5'' ''9'' ''OBJECTID'' ''https://host/FeatureServer/0''
       (idle_world\<lparr>net := [Response soft_error, Response hard_failure, Response success]\<rparr>)))
   = [Get (queryURL_of ''5'' ''9'' ''OBJECTID'' ''https://host/FeatureServer/0''),
      Sleep 10,
      Sleep 60,
      Get (queryURL_of ''5'' ''9'' ''OBJECTID'' ''https://host/FeatureServer/0''),
      Sleep 120,
      Get (queryURL_of ''5'' ''9'' ''OBJECTID'' ''https://host/FeatureServer/0''),
      WriteFile ''000000.json'' (content success)]
   \<and> \<not> pause_after_final_response
       (events (snd (QueryExtractionRequest ''5'' ''9'' ''OBJECTID''
          ''https://host/FeatureServer/0''
          (idle_world\<lparr>net := [Response soft_error, Response hard_failure, Response success]\<rparr>))))"
proof -
  let ?w = "idle_world\<lparr>net := [Response soft_error, Response hard_failure, Response success]\<rparr>"
  have "\<forall>r \<in> set [soft_error, hard_failure]. failed r"
    by (simp add: failed_soft_error failed_hard_failure)
  moreover have "net ?w = map Response [soft_error, hard_failure] @ Response success # []"
    "response_flag ?w"
    by (simp_all add: idle_world_def)
  ultimately have served:
    "QueryExtractionRequest ''5'' ''9'' ''OBJECTID'' ''https://host/FeatureServer/0'' ?w =
     (Done (),
      ?w\<lparr>net := [],
        events := events ?w
          @ Get (queryURL_of ''5'' ''9'' ''OBJECTID'' ''https://host/FeatureServer/0'')
          # Sleep query_request_standard_pause
          # backoff_events (queryURL_of ''5'' ''9'' ''OBJECTID'' ''https://host/FeatureServer/0'')
              30 (length [soft_error, hard_failure])
          @ [WriteFile (staged_name (json_file_iterator ?w)) (content success)],
        out_json_folder :=
          write_file (staged_name (json_file_iterator ?w)) (content success)
            (out_json_folder ?w)\<rparr>)"
    using not_failed_success by (intro QueryExtractionRequest_served)
  have n0: "staged_name 0 = ''000000.json''"
    by (simp add: staged_name_def zfill_def str_nat.simps digit_char_def replicate_numeral)
  show ?thesis
    unfolding served
    by (simp add: idle_world_def n0 pause_after_final_response_def
        query_request_standard_pause_def)
qed


theorem C2_pause_follows_first_response_witness:
  "response_flag (idle_world\<lparr>net := [Response soft_error, Response hard_failure, Response success]\<rparr>)
   \<and> failed soft_error \<and> failed hard_failure \<and> \<not> failed success
   \<and> (\<exists>w' new.
      QueryExtractionRequest ''5'' ''9'' ''OBJECTID'' ''https://host/FeatureServer/0''
        (idle_world\<lparr>net := [Response soft_error, Response hard_failure, Response success]\<rparr>)
        = (Done (), w')
      \<and> events w' = new
      \<and> take 2 new = [Get (queryURL_of ''5'' ''9'' ''OBJECTID'' ''https://host/FeatureServer/0''),
                        Sleep 10]
      \<and> count_list new (Sleep 10) = 1
      \<and> length (gets_of new) = 3
      \<and> sleeps_of (drop 2 new) = [60, 120]
      \<and> \<not> pause_after_final_response new)"
proof -
  let ?w = "idle_world\<lparr>net := [Response soft_error, Response hard_failure, Response success]\<rparr>"
  have h: "response_flag ?w \<and> (\<forall>r \<in> set [soft_error, hard_failure]. failed r)
      \<and> \<not> failed success
      \<and> net ?w = map Response [soft_error, hard_failure] @ Response success # []"
    by (simp add: idle_world_def failed_soft_error failed_hard_failure not_failed_success)
  have up: "map (\<lambda>i. 30 * 2 ^ i) [1..<Suc (length [soft_error, hard_failure])] = [60, 120 :: nat]"
    by (simp add: upt_rec)
  have ev: "events ?w = []"
    by (simp add: idle_world_def)
  have ne: "([soft_error, hard_failure] = []) = False"
    by simp
  from C2_pause_follows_first_response
    [of ?w "[soft_error, hard_failure]" success "[]"
      "''5''" "''9''" "''OBJECTID''" "''https://host/FeatureServer/0''"] h
  have "\<exists>w' new.
      QueryExtractionRequest ''5'' ''9'' ''OBJECTID'' ''https://host/FeatureServer/0'' ?w
        = (Done (), w')
      \<and> events w' = events ?w @ new
      \<and> take 2 new = [Get (queryURL_of ''5'' ''9'' ''OBJECTID'' ''https://host/FeatureServer/0''),
                        Sleep query_request_standard_pause]
      \<and> count_list new (Sleep query_request_standard_pause) = 1
      \<and> gets_of new = replicate (Suc (length [soft_error, hard_failure]))
           (queryURL_of ''5'' ''9'' ''OBJECTID'' ''https://host/FeatureServer/0'')
      \<and> sleeps_of (drop 2 new) = map (\<lambda>i. 30 * 2 ^ i) [1..<Suc (length [soft_error, hard_failure])]
      \<and> pause_after_final_response new = ([soft_error, hard_failure] = [])"
    by blast
  then obtain w' new where
    "QueryExtractionRequest ''5'' ''9'' ''OBJECTID'' ''https://host/FeatureServer/0'' ?w
        = (Done (), w')"
    "events w' = new"
    "take 2 new = [Get (queryURL_of ''5'' ''9'' ''OBJECTID'' ''https://host/FeatureServer/0''),
                        Sleep 10]"
    "count_list new (Sleep 10) = 1"
    "gets_of new = replicate (Suc (length [soft_error, hard_failure]))
           (queryURL_of ''5'' ''9'' ''OBJECTID'' ''https://host/FeatureServer/0'')"
    "sleeps_of (drop 2 new) = [60, 120]"
    "\<not> pause_after_final_response new"
    unfolding up ev ne append_Nil query_request_standard_pause_def by blast
  moreover from this have "length (gets_of new) = 3"
    by simp
  ultimately show ?thesis using h by auto
qed


text \<open>
  C9. The sentinel test is containment anywhere in the body. Entered with the flag set,
  an ok response whose body holds the sentinel between any bytes \<open>p\<close> and \<open>q\<close> is not
  written: the query is requested again and the body of the next accepted response is
  written instead. Whatever the trace, a body that \<open>QueryExtractionRequest\<close> writes
  does not contain the sentinel.
\<close>

theorem C9_soft_failure_is_substring_containment:
  "(bytes_in needle body \<longleftrightarrow> (\<exists>p q. body = p @ needle @ q))
   \<and> (response_flag w \<and> ok r \<and> content r = p @ server_error_message @ q \<and> \<not> failed s
        \<and> net w = Response r # Response s # rest \<longrightarrow>
      (\<exists>w' new.
         QueryExtractionRequest mn mx f u w = (Done (), w')
         \<and> events w' = events w @ new
         \<and> gets_of new = [queryURL_of mn mx f u, queryURL_of mn mx f u]
         \<and> writes_of new = [(staged_name (json_file_iterator w), content s)]))
   \<and> (QueryExtractionRequest mn mx f u v = (Done (), v') \<longrightarrow>
      (\<exists>new written.
         events v' = events v @ new
         \<and> writes_of new = [(staged_name (json_file_iterator v), written)]
         \<and> \<not> bytes_in server_error_message written))"
proof (intro conjI impI)
  show "bytes_in needle body \<longleftrightarrow> (\<exists>p q. body = p @ needle @ q)"
    by (rule bytes_in_iff)
next
  assume a: "response_flag w \<and> ok r \<and> content r = p @ server_error_message @ q \<and> \<not> failed s
        \<and> net w = Response r # Response s # rest"
  then have "bytes_in server_error_message (content r)"
    unfolding bytes_in_iff by blast
  then have fr: "\<forall>x \<in> set [r]. failed x"
    by (simp add: failed_def)
  let ?url = "queryURL_of mn mx f u"
  let ?new = "Get ?url # Sleep query_request_standard_pause # backoff_events ?url 30 (length [r])
                @ [WriteFile (staged_name (json_file_iterator w)) (content s)]"
  let ?w' = "w\<lparr>net := rest, events := events w @ ?new,
        out_json_folder :=
          write_file (staged_name (json_file_iterator w)) (content s) (out_json_folder w)\<rparr>"
  from a fr have served: "QueryExtractionRequest mn mx f u w = (Done (), ?w')"
    by (intro QueryExtractionRequest_served) simp_all
  have "events ?w' = events w @ ?new" by simp
  moreover have "gets_of ?new = [?url, ?url]" by simp
  moreover have "writes_of ?new = [(staged_name (json_file_iterator w), content s)]" by simp
  ultimately show "\<exists>w' new.
         QueryExtractionRequest mn mx f u w = (Done (), w')
         \<and> events w' = events w @ new
         \<and> gets_of new = [queryURL_of mn mx f u, queryURL_of mn mx f u]
         \<and> writes_of new = [(staged_name (json_file_iterator w), content s)]"
    using served by blast
next
  assume "QueryExtractionRequest mn mx f u v = (Done (), v')"
  from QueryExtractionRequest_returns [OF this]
  show "\<exists>new written.
         events v' = events v @ new
         \<and> writes_of new = [(staged_name (json_file_iterator v), written)]
         \<and> \<not> bytes_in server_error_message written"
    by blast
qed


theorem C9_soft_failure_is_substring_containment_witness:
  "response_flag (idle_world\<lparr>net := [Response features_quoting_sentinel, Response success]\<rparr>)
   \<and> ok features_quoting_sentinel
   \<and> content features_quoting_sentinel
       = ''{\"features\":[{\"attributes\":{\"LAST_REPLY\":'' @ server_error_message @ ''}}]}''
   \<and> \<not> failed success
   \<and> (\<exists>w' new.
         QueryExtractionRequest ''5'' ''9'' ''OBJECTID'' ''https://host/FeatureServer/0''
           (idle_world\<lparr>net := [Response features_quoting_sentinel, Response success]\<rparr>)
           = (Done (), w')
         \<and> events w' = new
         \<and> length (gets_of new) = 2
         \<and> writes_of new = [(''000000.json'', content success)]
         \<and> \<not> bytes_in server_error_message (content success))"
proof -
  let ?w = "idle_world\<lparr>net := [Response features_quoting_sentinel, Response success]\<rparr>"
  let ?run = "QueryExtractionRequest ''5'' ''9'' ''OBJECTID'' ''https://host/FeatureServer/0'' ?w"
  have h: "response_flag ?w \<and> ok features_quoting_sentinel
      \<and> content features_quoting_sentinel
          = ''{\"features\":[{\"attributes\":{\"LAST_REPLY\":'' @ server_error_message @ ''}}]}''
      \<and> \<not> failed success
      \<and> net ?w = Response features_quoting_sentinel # Response success # []"
    by (simp add: idle_world_def features_quoting_sentinel_def not_failed_success)
  have ev: "events ?w = []" "json_file_iterator ?w = 0"
    by (simp_all add: idle_world_def)
  have n0: "staged_name 0 = ''000000.json''"
    by (simp add: staged_name_def zfill_def str_nat.simps digit_char_def replicate_numeral)
  note c9 = C9_soft_failure_is_substring_containment
    [of _ _ ?w features_quoting_sentinel
      "''{\"features\":[{\"attributes\":{\"LAST_REPLY\":''" "''}}]}''" success "[]"
      "''5''" "''9''" "''OBJECTID''" "''https://host/FeatureServer/0''" ?w "snd ?run"]
  from c9 h obtain w' new where run: "?run = (Done (), w')" and e: "events w' = events ?w @ new"
    and g: "gets_of new = [queryURL_of ''5'' ''9'' ''OBJECTID'' ''https://host/FeatureServer/0'',
                          queryURL_of ''5'' ''9'' ''OBJECTID'' ''https://host/FeatureServer/0'']"
    and wr: "writes_of new = [(staged_name (json_file_iterator ?w), content success)]"
    by blast
  from run have "?run = (Done (), snd ?run)" by simp
  with c9 obtain new' written where e': "events (snd ?run) = events ?w @ new'"
    and wr': "writes_of new' = [(staged_name (json_file_iterator ?w), written)]"
    and clean: "\<not> bytes_in server_error_message written"
    by blast
  from e e' run have "new' = new" by simp
  with wr wr' have "written = content success" by simp
  with clean have "\<not> bytes_in server_error_message (content success)" by simp
  moreover from g have "length (gets_of new) = 2" by simp
  ultimately show ?thesis
    using h run e wr unfolding ev n0 append_Nil by blast
qed

section \<open>The main loop\<close>

lemma extraction_loop_split:
  assumes "for_each (extract_group f u) (gs1 @ gs2) w = (res, w2)"
  shows "\<exists>r1 w1. for_each (extract_group f u) gs1 w = (r1, w1)
      \<and> (case r1 of Done _ \<Rightarrow> for_each (extract_group f u) gs2 w1 = (res, w2)
          | _ \<Rightarrow> res = r1 \<and> w2 = w1)"
proof -
  obtain r1 w1 where p: "for_each (extract_group f u) gs1 w = (r1, w1)"
    by (cases "for_each (extract_group f u) gs1 w") blast
  with assms show ?thesis
    by (cases r1) (auto simp: for_each_append and_then_def)
qed

lemma extract_group_served:
  assumes g: "g \<noteq> []" and flag: "response_flag w"
    and fs: "\<forall>r \<in> set fs. failed r" and s: "\<not> failed s"
    and net: "net w = map Response fs @ Response s # rest"
  shows "extract_group f u g w =
     (Done (),
      w\<lparr>json_file_iterator := json_file_iterator w + length g,
        net := rest,
        events := events w
          @ Get (queryURL_of (str_int (hd g)) (str_int (last g)) f u)
          # Sleep query_request_standard_pause
          # backoff_events (queryURL_of (str_int (hd g)) (str_int (last g)) f u) 30 (length fs)
          @ [WriteFile (staged_name (json_file_iterator w + length g)) (content s)],
        out_json_folder :=
          write_file (staged_name (json_file_iterator w + length g)) (content s)
            (out_json_folder w)\<rparr>)"
proof -
  let ?w1 = "w\<lparr>json_file_iterator := json_file_iterator w + length g\<rparr>"
  from g have gb: "group_bounds g = Inr (hd g, last g)"
    by (cases g) (simp_all add: group_bounds_def)
  have "response_flag ?w1" "net ?w1 = map Response fs @ Response s # rest"
    using flag net by simp_all
  from QueryExtractionRequest_served [OF fs s this(2) this(1), of "str_int (hd g)" "str_int (last g)" f u]
  show ?thesis
    by (simp add: extract_group_def gb Let_def)
qed

section \<open>Decimal text and lexical order\<close>

lemma digit_char_code: "i < 10 \<Longrightarrow> of_char (digit_char i) = 48 + i"
proof -
  assume "i < 10"
  then have "i = 0 \<or> i = 1 \<or> i = 2 \<or> i = 3 \<or> i = 4 \<or> i = 5 \<or> i = 6 \<or> i = 7 \<or> i = 8 \<or> i = 9"
    by arith
  then show ?thesis
    by (elim disjE) (simp_all add: digit_char_def)
qed

lemma digit_char_less: "i < j \<Longrightarrow> j < 10 \<Longrightarrow> digit_char i < digit_char j"
  by (simp add: less_char_def digit_char_code)

lemma digit_char_not_sign: "i < 10 \<Longrightarrow> digit_char i \<noteq> CHR ''+'' \<and> digit_char i \<noteq> CHR ''-''"
proof -
  assume "i < 10"
  then have "i = 0 \<or> i = 1 \<or> i = 2 \<or> i = 3 \<or> i = 4 \<or> i = 5 \<or> i = 6 \<or> i = 7 \<or> i = 8 \<or> i = 9"
    by arith
  then show ?thesis
    by (elim disjE) (simp_all add: digit_char_def)
qed

lemma str_nat_small: "n < 10 \<Longrightarrow> str_nat n = [digit_char n]"
  by (subst str_nat.simps) simp

lemma str_nat_large: "\<not> n < 10 \<Longrightarrow> str_nat n = str_nat (n div 10) @ [digit_char (n mod 10)]"
  by (subst str_nat.simps) simp

lemma str_nat_hd: "\<exists>i rest. i < 10 \<and> str_nat n = digit_char i # rest"
proof (induction n rule: str_nat.induct)
  case (1 n)
  show ?case
  proof (cases "n < 10")
    case True
    then show ?thesis by (auto simp: str_nat_small)
  next
    case False
    with "1.IH" obtain i rest where "i < 10" "str_nat (n div 10) = digit_char i # rest"
      by blast
    with False show ?thesis by (auto simp: str_nat_large)
  qed
qed

lemma zfill_str_nat:
  "zfill width (str_nat n) = replicate (width - length (str_nat n)) CHR ''0'' @ str_nat n"
proof -
  from str_nat_hd [of n] obtain i rest where "i < 10" "str_nat n = digit_char i # rest"
    by blast
  then show ?thesis
    using digit_char_not_sign [of i] by (simp add: zfill_def)
qed

lemma fixed_digits_0: "fixed_digits k 0 = replicate k CHR ''0''"
  by (induction k) (simp_all add: digit_char_def replicate_append_same)

lemma length_fixed_digits [simp]: "length (fixed_digits k n) = k"
  by (induction k arbitrary: n) simp_all

lemma pad_str_nat:
  "n < 10 ^ k \<Longrightarrow> 0 < k \<Longrightarrow>
   replicate (k - length (str_nat n)) CHR ''0'' @ str_nat n = fixed_digits k n"
proof (induction k arbitrary: n)
  case 0
  then show ?case by simp
next
  case (Suc k)
  show ?case
  proof (cases "n < 10")
    case True
    then show ?thesis
      by (simp add: str_nat_small fixed_digits_0)
  next
    case False
    with Suc.prems have k: "0 < k"
      by (cases k) simp_all
    from Suc.prems have d: "n div 10 < 10 ^ k"
      by (simp add: less_mult_imp_div_less mult.commute)
    have l: "0 < length (str_nat (n div 10))"
      using str_nat_hd [of "n div 10"] by auto
    from Suc.IH [OF d k] False l show ?thesis
      by (simp add: str_nat_large Suc_diff_le)
  qed
qed

lemma snoc_less_snoc:
  "length xs = length ys \<Longrightarrow>
   (xs @ [c] < ys @ [d]) = (xs < ys \<or> xs = ys \<and> c < (d :: char))"
  by (induction xs ys rule: list_induct2) auto

lemma append_same_less:
  "length xs = length ys \<Longrightarrow> (xs @ s < ys @ s) = (xs < (ys :: string))"
  by (induction xs ys rule: list_induct2) auto

lemma fixed_digits_less:
  "a < b \<Longrightarrow> b < 10 ^ k \<Longrightarrow> fixed_digits k a < fixed_digits k b"
proof (induction k arbitrary: a b)
  case 0
  then show ?case by simp
next
  case (Suc k)
  from Suc.prems have d: "b div 10 < 10 ^ k"
    by (simp add: less_mult_imp_div_less mult.commute)
  have "a div 10 \<le> b div 10"
    using Suc.prems(1) by (simp add: div_le_mono)
  moreover have "a mod 10 < b mod 10" if e: "a div 10 = b div 10"
  proof -
    have "a = 10 * (a div 10) + a mod 10" "b = 10 * (b div 10) + b mod 10"
      by simp_all
    with e Suc.prems(1) show ?thesis by linarith
  qed
  ultimately have "a div 10 < b div 10 \<or> a div 10 = b div 10 \<and> a mod 10 < b mod 10"
    by fastforce
  then show ?case
  proof
    assume "a div 10 < b div 10"
    from Suc.IH [OF this d] show ?thesis
      by (simp add: snoc_less_snoc)
  next
    assume "a div 10 = b div 10 \<and> a mod 10 < b mod 10"
    then show ?thesis
      by (simp add: snoc_less_snoc digit_char_less)
  qed
qed

lemma staged_name_less:
  assumes "a < b" and "b < 1000000"
  shows "staged_name a < staged_name b"
proof -
  from assms have a: "a < 10 ^ 6" and b: "b < 10 ^ 6" by simp_all
  have "zfill 6 (str_nat a) = fixed_digits 6 a" "zfill 6 (str_nat b) = fixed_digits 6 b"
    using pad_str_nat [OF a] pad_str_nat [OF b] by (simp_all add: zfill_str_nat)
  moreover from assms(1) b have "fixed_digits 6 a < fixed_digits 6 b"
    by (rule fixed_digits_less)
  ultimately show ?thesis
    by (simp add: staged_name_def append_same_less)
qed

lemma str_nat_1020000: "str_nat 1020000 = ''1020000''"
  by (simp add: str_nat_large str_nat_small digit_char_def)

lemma str_nat_990000: "str_nat 990000 = ''990000''"
  by (simp add: str_nat_large str_nat_small digit_char_def)

lemma staged_name_order_lost_at_seven_digits:
  "990000 < (1020000 :: nat) \<and> staged_name 1020000 < staged_name 990000"
  by (simp add: staged_name_def zfill_def str_nat_1020000 str_nat_990000)

section \<open>The names of the staged files\<close>

lemma extract_group_returns:
  assumes "extract_group f u g w = (Done (), w')"
  shows "g \<noteq> [] \<and> (\<exists>new body. events w' = events w @ new
      \<and> writes_of new = [(staged_name (json_file_iterator w + length g), body)]
      \<and> \<not> bytes_in server_error_message body
      \<and> out_json_folder w'
          = write_file (staged_name (json_file_iterator w + length g)) body (out_json_folder w)
      \<and> json_file_iterator w' = json_file_iterator w + length g
      \<and> intermediate_gdb w' = intermediate_gdb w
      \<and> final_featureclass w' = final_featureclass w
      \<and> response_flag w')"
proof -
  from assms have g: "g \<noteq> []"
    by (auto simp: extract_group_def group_bounds_def)
  then have gb: "group_bounds g = Inr (hd g, last g)"
    by (cases g) (simp_all add: group_bounds_def)
  let ?w1 = "w\<lparr>json_file_iterator := json_file_iterator w + length g\<rparr>"
  from assms gb have "QueryExtractionRequest (str_int (hd g)) (str_int (last g)) f u ?w1
      = (Done (), w')"
    by (simp add: extract_group_def Let_def)
  from QueryExtractionRequest_returns [OF this] g show ?thesis
    by simp
qed

lemma running_totals_bounds:
  "x \<in> set (running_totals n gs) \<Longrightarrow> n \<le> x \<and> x \<le> n + sum_list (map length gs)"
proof (induction gs arbitrary: n)
  case Nil
  then show ?case by simp
next
  case (Cons g gs)
  then show ?case by fastforce
qed

lemma running_totals_above:
  "\<forall>g \<in> set gs. g \<noteq> [] \<Longrightarrow> x \<in> set (running_totals n gs) \<Longrightarrow> n < x"
proof (induction gs arbitrary: n)
  case Nil
  then show ?case by simp
next
  case (Cons g gs)
  then have pos: "0 < length g" by simp
  from Cons.prems(2) have "x = n + length g \<or> x \<in> set (running_totals (n + length g) gs)"
    by simp
  then show ?case
  proof
    assume "x = n + length g"
    with pos show ?thesis by simp
  next
    assume "x \<in> set (running_totals (n + length g) gs)"
    with Cons.IH [of "n + length g"] Cons.prems(1) have "n + length g < x" by simp
    then show ?thesis by simp
  qed
qed

lemma running_totals_increasing:
  "\<forall>g \<in> set gs. g \<noteq> [] \<Longrightarrow> sorted_wrt (<) (running_totals n gs)"
proof (induction gs arbitrary: n)
  case Nil
  then show ?case by simp
next
  case (Cons g gs)
  then have "\<forall>x \<in> set (running_totals (n + length g) gs). n + length g < x"
    using running_totals_above [of gs _ "n + length g"] by simp
  with Cons.IH [of "n + length g"] Cons.prems show ?case by simp
qed

lemma extraction_loop_writes:
  "for_each (extract_group f u) gs w = (Done (), w') \<Longrightarrow>
   (\<forall>g \<in> set gs. g \<noteq> [])
   \<and> json_file_iterator w' = json_file_iterator w + sum_list (map length gs)
   \<and> (\<exists>new. events w' = events w @ new
        \<and> map fst (writes_of new) = map staged_name (running_totals (json_file_iterator w) gs)
        \<and> (\<forall>body \<in> set (map snd (writes_of new)). \<not> bytes_in server_error_message body))"
proof (induction gs arbitrary: w)
  case Nil
  then show ?case by simp
next
  case (Cons g gs)
  from Cons.prems obtain w1 where g: "extract_group f u g w = (Done (), w1)"
    and rest: "for_each (extract_group f u) gs w1 = (Done (), w')"
    by (cases "extract_group f u g w") (auto simp: and_then_def split: result.splits)
  from extract_group_returns [OF g] obtain new1 body where ne: "g \<noteq> []"
    and e1: "events w1 = events w @ new1"
    and w1: "writes_of new1 = [(staged_name (json_file_iterator w + length g), body)]"
    and b1: "\<not> bytes_in server_error_message body"
    and j1: "json_file_iterator w1 = json_file_iterator w + length g"
    by blast
  from Cons.IH [OF rest] obtain new2 where ne2: "\<forall>g \<in> set gs. g \<noteq> []"
    and j2: "json_file_iterator w' = json_file_iterator w1 + sum_list (map length gs)"
    and e2: "events w' = events w1 @ new2"
    and w2: "map fst (writes_of new2) = map staged_name (running_totals (json_file_iterator w1) gs)"
    and b2: "\<forall>body \<in> set (map snd (writes_of new2)). \<not> bytes_in server_error_message body"
    by blast
  have "events w' = events w @ (new1 @ new2)"
    by (simp add: e1 e2)
  moreover have "map fst (writes_of (new1 @ new2))
      = map staged_name (running_totals (json_file_iterator w) (g # gs))"
    by (simp add: writes_of_append w1 w2 j1)
  moreover have "\<forall>body \<in> set (map snd (writes_of (new1 @ new2))).
      \<not> bytes_in server_error_message body"
    using b1 b2 by (auto simp: writes_of_append w1)
  ultimately show ?case
    using ne ne2 j1 j2 by (auto simp: add.assoc)
qed

text \<open>
  Whenever the main loop returns, it has written one file per chunk, in the order of
  the chunks, under the names of the running counts, and no written body contains the
  sentinel; below 1000000 identifiers the names increase in lexical order.
\<close>

lemma extraction_loop_names:
  "for_each (extract_group f u) groups w = (Done (), w') \<longrightarrow>
     (\<exists>new.
        events w' = events w @ new
        \<and> length (writes_of new) = length groups
        \<and> map fst (writes_of new)
            = map (\<lambda>n. zfill 6 (str_nat n) @ ''.json'')
                (running_totals (json_file_iterator w) groups)
        \<and> (\<forall>body \<in> set (map snd (writes_of new)). \<not> bytes_in server_error_message body)
        \<and> (json_file_iterator w' < 1000000 \<longrightarrow> sorted_wrt (<) (map fst (writes_of new))))"
proof
  assume a: "for_each (extract_group f u) groups w = (Done (), w')"
  from extraction_loop_writes [OF a] obtain new where ne: "\<forall>g \<in> set groups. g \<noteq> []"
    and j: "json_file_iterator w' = json_file_iterator w + sum_list (map length groups)"
    and e: "events w' = events w @ new"
    and n: "map fst (writes_of new)
        = map staged_name (running_totals (json_file_iterator w) groups)"
    and b: "\<forall>body \<in> set (map snd (writes_of new)). \<not> bytes_in server_error_message body"
    by blast
  have sn: "staged_name = (\<lambda>n. zfill 6 (str_nat n) @ ''.json'')"
    by (rule ext) (simp add: staged_name_def)
  have len: "length (running_totals k gs) = length gs" for k and gs :: "int list list"
    by (induction gs arbitrary: k) simp_all
  from n have "length (map fst (writes_of new))
      = length (map staged_name (running_totals (json_file_iterator w) groups))"
    by simp
  then have l: "length (writes_of new) = length groups"
    by (simp add: len)
  have srt: "sorted_wrt (<) (map fst (writes_of new))" if lt: "json_file_iterator w' < 1000000"
  proof -
    let ?ts = "running_totals (json_file_iterator w) groups"
    have inc: "sorted_wrt (<) ?ts"
      using ne by (rule running_totals_increasing)
    have bound: "\<forall>x \<in> set ?ts. x < 1000000"
      using running_totals_bounds [of _ "json_file_iterator w" groups] j lt by fastforce
    have "sorted_wrt (\<lambda>x y. staged_name x < staged_name y) ?ts"
    proof (rule sorted_wrt_mono_rel [OF _ inc])
      fix x y assume "x \<in> set ?ts" "y \<in> set ?ts" "x < y"
      with bound show "staged_name x < staged_name y"
        by (simp add: staged_name_less)
    qed
    then show ?thesis
      by (simp add: n sorted_wrt_map)
  qed
  from e l n b srt show "\<exists>new.
        events w' = events w @ new
        \<and> length (writes_of new) = length groups
        \<and> map fst (writes_of new)
            = map (\<lambda>n. zfill 6 (str_nat n) @ ''.json'')
                (running_totals (json_file_iterator w) groups)
        \<and> (\<forall>body \<in> set (map snd (writes_of new)). \<not> bytes_in server_error_message body)
        \<and> (json_file_iterator w' < 1000000 \<longrightarrow> sorted_wrt (<) (map fst (writes_of new)))"
    unfolding sn by blast
qed

section \<open>Runs with one page or none\<close>

lemma strides_single:
  "xs \<noteq> [] \<Longrightarrow> length xs \<le> n \<Longrightarrow> strides n xs = [xs]"
  by (cases "n = 0") (simp_all add: strides_step)

lemma and_then_Done [simp]: "and_then (Done x, w) f = f x w"
  by (simp add: and_then_def)

lemma and_then_Raised [simp]: "and_then (Raised e, w) f = (Raised e, w)"
  by (simp add: and_then_def)

lemma and_then_Blocked [simp]: "and_then (Blocked, w) f = (Blocked, w)"
  by (simp add: and_then_def)

lemma session_get_Response:
  "net w = Response r # rest \<Longrightarrow>
   session_get url w = (Done r, w\<lparr>net := rest, events := events w @ [Get url]\<rparr>)"
  by (simp add: session_get_def log_def)

lemma staging_empty_manifest:
  assumes folder: "out_json_folder w = []"
    and net: "net w = Response r1 # Response r2 # rest"
    and d1: "decode_maxRecordCount E (content r1) = Inr m"
    and d2: "decode_objectIds E (content r2) = Inr (f, [])"
  shows "staging E w =
     (Done (),
      w\<lparr>json_file_iterator := 0, response_flag := True, net := rest,
        events := events w
          @ [Get (service_URL E @ ''?f=pjson''),
             Get (service_URL E @ ''/query?where=1%3D1&returnIdsOnly=true&f=json'')]\<rparr>)"
proof -
  let ?w0 = "w\<lparr>json_file_iterator := 0, response_flag := True\<rparr>"
  have c: "CleanUpJSONsFolder E ?w0 = (Done (), ?w0)"
    by (simp add: CleanUpJSONsFolder_def os_listdir_def folder)
  let ?w2 = "?w0\<lparr>net := Response r2 # rest,
                 events := events w @ [Get (service_URL E @ ''?f=pjson'')]\<rparr>"
  have g1: "ServiceGetRecordExtract E (service_URL E) ?w0 = (Done m, ?w2)"
    using net d1 by (simp add: ServiceGetRecordExtract_def session_get_Response)
  let ?w3 = "?w2\<lparr>net := rest,
                 events := events ?w2
                   @ [Get (service_URL E @ ''/query?where=1%3D1&returnIdsOnly=true&f=json'')]\<rparr>"
  have g2: "ServiceGetObjectIDs E (service_URL E) ?w2 = (Done (f, []), ?w3)"
    using d2 by (simp add: ServiceGetObjectIDs_def session_get_Response)
  have ic: "IterableChunk record_extraction_hardcode [] = Inr (0, [])"
    by (simp add: IterableChunk_strides record_extraction_hardcode_def)
  show ?thesis
    unfolding staging_def Let_def c and_then_Done g1 g2 prod.case ic sum.case
    by simp
qed

lemma IterableChunk_single_page:
  assumes "ids \<noteq> []" "length ids \<le> 30000"
  shows "\<exists>total. IterableChunk record_extraction_hardcode ids = Inr (total, [ids])"
proof -
  have one: "1 \<le> record_extraction_hardcode"
    by (simp add: record_extraction_hardcode_def)
  have "nat record_extraction_hardcode = 30000"
    by (simp add: record_extraction_hardcode_def)
  with assms have "length ids \<le> nat record_extraction_hardcode"
    by simp
  with assms(1) have "strides (nat record_extraction_hardcode) ids = [ids]"
    by (rule strides_single)
  with IterableChunk_total [OF one, of ids] show ?thesis
    by simp
qed

lemma staging_single_page:
  assumes folder: "out_json_folder w = []"
    and net: "net w = Response r1 # Response r2 # Response s # rest"
    and d1: "decode_maxRecordCount E (content r1) = Inr m"
    and d2: "decode_objectIds E (content r2) = Inr (f, ids)"
    and ids: "ids \<noteq> []" "length ids \<le> 30000"
    and s: "\<not> failed s"
  shows "staging E w =
     (Done (),
      w\<lparr>json_file_iterator := length ids, response_flag := True, net := rest,
        events := events w
          @ [Get (service_URL E @ ''?f=pjson''),
             Get (service_URL E @ ''/query?where=1%3D1&returnIdsOnly=true&f=json''),
             Get (queryURL_of (str_int (hd (sort ids))) (str_int (last (sort ids))) f
                    (service_URL E)),
             Sleep query_request_standard_pause,
             WriteFile (staged_name (length ids)) (content s)],
        out_json_folder := [(staged_name (length ids), content s)]\<rparr>)"
proof -
  let ?w0 = "w\<lparr>json_file_iterator := 0, response_flag := True\<rparr>"
  have c: "CleanUpJSONsFolder E ?w0 = (Done (), ?w0)"
    by (simp add: CleanUpJSONsFolder_def os_listdir_def folder)
  let ?w2 = "?w0\<lparr>net := Response r2 # Response s # rest,
                 events := events w @ [Get (service_URL E @ ''?f=pjson'')]\<rparr>"
  have g1: "ServiceGetRecordExtract E (service_URL E) ?w0 = (Done m, ?w2)"
    using net d1 by (simp add: ServiceGetRecordExtract_def session_get_Response)
  let ?w3 = "?w2\<lparr>net := Response s # rest,
                 events := events ?w2
                   @ [Get (service_URL E @ ''/query?where=1%3D1&returnIdsOnly=true&f=json'')]\<rparr>"
  have g2: "ServiceGetObjectIDs E (service_URL E) ?w2 = (Done (f, sort ids), ?w3)"
    using d2 by (simp add: ServiceGetObjectIDs_def session_get_Response)
  have len: "length (sort ids) = length ids" by simp
  from len ids(1) have srt1: "sort ids \<noteq> []"
    by (metis length_0_conv)
  from len ids(2) have srt2: "length (sort ids) \<le> 30000"
    by simp
  note srt = srt1 srt2
  from IterableChunk_single_page [OF srt] obtain total where
    ic: "IterableChunk record_extraction_hardcode (sort ids) = Inr (total, [sort ids])"
    by blast
  have n3: "net ?w3 = map Response [] @ Response s # rest" and f3: "response_flag ?w3"
    by simp_all
  have nofs: "\<forall>r \<in> set ([] :: response list). failed r" by simp
  note eg = extract_group_served [OF srt(1) f3 nofs s n3, of f "service_URL E"]
  have loop: "for_each (extract_group f (service_URL E)) [sort ids] ?w3
      = extract_group f (service_URL E) (sort ids) ?w3"
    by (cases "extract_group f (service_URL E) (sort ids) ?w3")
      (simp add: and_then_def split: result.splits)
  have "staging E w = extract_group f (service_URL E) (sort ids) ?w3"
    unfolding staging_def Let_def c and_then_Done g1 g2 prod.case ic sum.case loop ..
  also have "\<dots> = (Done (),
      w\<lparr>json_file_iterator := length ids, response_flag := True, net := rest,
        events := events w
          @ [Get (service_URL E @ ''?f=pjson''),
             Get (service_URL E @ ''/query?where=1%3D1&returnIdsOnly=true&f=json''),
             Get (queryURL_of (str_int (hd (sort ids))) (str_int (last (sort ids))) f
                    (service_URL E)),
             Sleep query_request_standard_pause,
             WriteFile (staged_name (length ids)) (content s)],
        out_json_folder := [(staged_name (length ids), content s)]\<rparr>)"
    unfolding eg by (simp add: folder)
  finally show ?thesis .
qed

lemma staged_name_1: "staged_name (Suc 0) = ''000001.json''"
  by (simp add: staged_name_def zfill_def str_nat_small digit_char_def replicate_numeral)

lemma staged_name_0: "staged_name 0 = ''000000.json''"
  by (simp add: staged_name_def zfill_def str_nat_small digit_char_def replicate_numeral)

lemma staged_name_6: "staged_name 6 = ''000006.json''"
  by (simp add: staged_name_def zfill_def str_nat_small digit_char_def replicate_numeral)

lemma staging_one_id:
  "staging example_env
     (idle_world\<lparr>net := [Response capabilities_reply, Response one_id_reply, Response success]\<rparr>)
   = (Done (),
      idle_world\<lparr>json_file_iterator := 1, response_flag := True, net := [],
        events :=
          [Get ''https://host/FeatureServer/0?f=pjson'',
           Get ''https://host/FeatureServer/0/query?where=1%3D1&returnIdsOnly=true&f=json'',
           Get (queryURL_of ''7'' ''7'' ''OBJECTID'' ''https://host/FeatureServer/0''),
           Sleep 10,
           WriteFile ''000001.json'' (content success)],
        out_json_folder := [(''000001.json'', content success)]\<rparr>)"
proof -
  let ?w = "idle_world\<lparr>net := [Response capabilities_reply, Response one_id_reply,
                                 Response success]\<rparr>"
  have "out_json_folder ?w = []"
    "net ?w = Response capabilities_reply # Response one_id_reply # Response success # []"
    by (simp_all add: idle_world_def)
  moreover have "decode_maxRecordCount example_env (content capabilities_reply) = Inr 1000"
    "decode_objectIds example_env (content one_id_reply) = Inr (''OBJECTID'', [7])"
    by (simp_all add: example_env_def)
  moreover have "[7] \<noteq> ([] :: int list)" "length [7 :: int] \<le> 30000"
    by simp_all
  ultimately have "staging example_env ?w =
     (Done (),
      ?w\<lparr>json_file_iterator := length [7 :: int], response_flag := True, net := [],
        events := events ?w
          @ [Get (service_URL example_env @ ''?f=pjson''),
             Get (service_URL example_env @ ''/query?where=1%3D1&returnIdsOnly=true&f=json''),
             Get (queryURL_of (str_int (hd (sort [7]))) (str_int (last (sort [7]))) ''OBJECTID''
                    (service_URL example_env)),
             Sleep query_request_standard_pause,
             WriteFile (staged_name (length [7 :: int])) (content success)],
        out_json_folder := [(staged_name (length [7 :: int]), content success)]\<rparr>)"
    using not_failed_success by (rule staging_single_page)
  moreover have "str_int 7 = ''7''"
    by (simp add: str_int_def str_nat_small digit_char_def)
  moreover have "service_URL example_env = ''https://host/FeatureServer/0''"
    by (simp add: example_env_def)
  ultimately show ?thesis
    by (simp add: staged_name_1 idle_world_def query_request_standard_pause_def)
qed

theorem C5_staged_name_is_not_the_ordinal_counterexample:
  "map fst (writes_of (events (snd (staging example_env
       (idle_world\<lparr>net := [Response capabilities_reply, Response one_id_reply,
                             Response success]\<rparr>)))))
     = [''000001.json'']
   \<and> ''000001.json'' \<noteq> zfill 6 (str_nat 0) @ ''.json''"
  using staged_name_0 by (simp add: staging_one_id staged_name_def)

section \<open>The destination during staging and conversion\<close>

lemma final_view_log: "\<not> touches_final e \<Longrightarrow> final_view (log e w) = final_view w"
  by (simp add: final_view_def log_def)

lemma final_view_fields [simp]:
  "final_view (w\<lparr>net := n\<rparr>) = final_view w"
  "final_view (w\<lparr>response_flag := b\<rparr>) = final_view w"
  "final_view (w\<lparr>json_file_iterator := j\<rparr>) = final_view w"
  "final_view (w\<lparr>out_json_folder := d\<rparr>) = final_view w"
  "final_view (w\<lparr>intermediate_gdb := g\<rparr>) = final_view w"
  by (simp_all add: final_view_def)

lemma network_only_not_final: "list_all network_only evs \<Longrightarrow> filter touches_final evs = []"
proof (induction evs)
  case Nil
  then show ?case by simp
next
  case (Cons e evs)
  then show ?case by (cases e) simp_all
qed

lemma and_then_keeps:
  "final_view (snd m) = v \<Longrightarrow> (\<And>x. keeps_final (f x)) \<Longrightarrow> final_view (snd (and_then m f)) = v"
  by (cases m) (auto simp: and_then_def keeps_final_def split: result.splits)

lemma for_each_keeps:
  "(\<And>x. keeps_final (body x)) \<Longrightarrow> keeps_final (for_each body xs)"
proof (induction xs)
  case Nil
  then show ?case by (simp add: keeps_final_def)
next
  case (Cons x xs)
  show ?case
    unfolding keeps_final_def
  proof
    fix w :: world
    have "final_view (snd (body x w)) = final_view w"
      using Cons.prems [of x] by (simp add: keeps_final_def)
    then have "final_view (snd (and_then (body x w) (\<lambda>_. for_each body xs))) = final_view w"
      using Cons.IH Cons.prems by (intro and_then_keeps) simp_all
    then show "final_view (snd (for_each body (x # xs) w)) = final_view w"
      by simp
  qed
qed

lemma session_get_keeps: "keeps_final (session_get url)"
  by (auto simp: keeps_final_def session_get_def final_view_log
      split: list.splits http_result.splits)

lemma retry_loop_keeps: "keeps_final (retry_loop url t r)"
  unfolding keeps_final_def
proof
  fix w :: world
  obtain res w' where p: "retry_loop url t r w = (res, w')"
    by (cases "retry_loop url t r w") blast
  from retry_loop_frame [OF p refl] obtain evs where
    "final_featureclass w' = final_featureclass w" "events w' = events w @ evs"
    "list_all network_only evs"
    by blast
  then have "final_view w' = final_view w"
    by (simp add: final_view_def network_only_not_final)
  with p show "final_view (snd (retry_loop url t r w)) = final_view w"
    by simp
qed

lemma QueryExtractionRequest_keeps: "keeps_final (QueryExtractionRequest mn mx f u)"
  unfolding keeps_final_def
proof
  fix w :: world
  let ?url = "queryURL_of mn mx f u"
  have loop: "final_view (snd (retry_loop ?url t r v)) = final_view v" for t r v
    using retry_loop_keeps [of ?url t r] by (simp add: keeps_final_def)
  have tail: "keeps_final (\<lambda>v.
      let w2 = (if bytes_in server_error_message (content response)
                then v\<lparr>response_flag := False\<rparr> else v);
          w3 = time_sleep query_request_standard_pause w2;
          sleep_timer = 30
      in case retry_loop ?url sleep_timer response w3 of
           (Done response', w4) \<Rightarrow>
             (Done (),
              open_write (zfill 6 (str_nat (json_file_iterator w4)) @ ''.json'')
                (content response') w4)
         | (Raised e, w4) \<Rightarrow> (Raised e, w4)
         | (Blocked, w4) \<Rightarrow> (Blocked, w4))" for response
    unfolding keeps_final_def Let_def
  proof
    fix v :: world
    let ?w3 = "time_sleep query_request_standard_pause
        (if bytes_in server_error_message (content response)
         then v\<lparr>response_flag := False\<rparr> else v)"
    have v3: "final_view ?w3 = final_view v"
      by (simp add: time_sleep_def final_view_log)
    obtain res w4 where p: "retry_loop ?url 30 response ?w3 = (res, w4)"
      by (cases "retry_loop ?url 30 response ?w3") blast
    with loop [of 30 response ?w3] v3 have "final_view w4 = final_view v"
      by simp
    then show "final_view (snd (case retry_loop ?url 30 response ?w3 of
           (Done response', w4) \<Rightarrow>
             (Done (),
              open_write (zfill 6 (str_nat (json_file_iterator w4)) @ ''.json'')
                (content response') w4)
         | (Raised e, w4) \<Rightarrow> (Raised e, w4)
         | (Blocked, w4) \<Rightarrow> (Blocked, w4))) = final_view v"
      unfolding p by (cases res) (simp_all add: open_write_def final_view_log)
  qed
  have sg: "final_view (snd (session_get ?url w)) = final_view w"
    using session_get_keeps [of ?url] by (simp add: keeps_final_def)
  have "QueryExtractionRequest mn mx f u w =
      and_then (session_get ?url w) (\<lambda>response v.
        let w2 = (if bytes_in server_error_message (content response)
                  then v\<lparr>response_flag := False\<rparr> else v);
            w3 = time_sleep query_request_standard_pause w2;
            sleep_timer = 30
        in case retry_loop ?url sleep_timer response w3 of
             (Done response', w4) \<Rightarrow>
               (Done (),
                open_write (zfill 6 (str_nat (json_file_iterator w4)) @ ''.json'')
                  (content response') w4)
           | (Raised e, w4) \<Rightarrow> (Raised e, w4)
           | (Blocked, w4) \<Rightarrow> (Blocked, w4))"
    by (simp add: QueryExtractionRequest_def and_then_def Let_def split: prod.splits result.splits)
  then show "final_view (snd (QueryExtractionRequest mn mx f u w)) = final_view w"
    using and_then_keeps [OF sg tail] by simp
qed

lemma extract_group_keeps: "keeps_final (extract_group f u g)"
  using QueryExtractionRequest_keeps
  by (auto simp: keeps_final_def extract_group_def Let_def split: sum.splits)

lemma os_remove_keeps: "keeps_final (os_remove name)"
  by (simp add: keeps_final_def os_remove_def final_view_log)

lemma CleanUpJSONsFolder_keeps: "keeps_final (CleanUpJSONsFolder E)"
  using for_each_keeps [of os_remove, OF os_remove_keeps]
  by (simp add: keeps_final_def CleanUpJSONsFolder_def)

lemma ServiceGetRecordExtract_keeps: "keeps_final (ServiceGetRecordExtract E u)"
  unfolding keeps_final_def ServiceGetRecordExtract_def
proof
  fix w :: world
  have "final_view (snd (session_get (u @ ''?f=pjson'') w)) = final_view w"
    using session_get_keeps [of "u @ ''?f=pjson''"] by (simp add: keeps_final_def)
  then show "final_view (snd (and_then (session_get (u @ ''?f=pjson'') w)
       (\<lambda>response w1.
          case decode_maxRecordCount E (content response) of
            Inl e \<Rightarrow> (Raised e, w1)
          | Inr ServiceRequestMAX \<Rightarrow> (Done ServiceRequestMAX, w1)))) = final_view w"
    by (rule and_then_keeps) (simp add: keeps_final_def split: sum.splits)
qed

lemma ServiceGetObjectIDs_keeps: "keeps_final (ServiceGetObjectIDs E u)"
  unfolding keeps_final_def ServiceGetObjectIDs_def
proof
  fix w :: world
  let ?url = "u @ ''/query?where=1%3D1&returnIdsOnly=true&f=json''"
  have "final_view (snd (session_get ?url w)) = final_view w"
    using session_get_keeps [of ?url] by (simp add: keeps_final_def)
  then show "final_view (snd (and_then (session_get ?url w)
       (\<lambda>response w1.
          case decode_objectIds E (content response) of
            Inl e \<Rightarrow> (Raised e, w1)
          | Inr (ObjectID_FieldName, objectIds) \<Rightarrow>
              (Done (ObjectID_FieldName, sort objectIds), w1)))) = final_view w"
    by (rule and_then_keeps) (simp add: keeps_final_def split: sum.splits prod.splits)
qed

lemma staging_keeps: "keeps_final (staging E)"
  unfolding keeps_final_def
proof
  fix w :: world
  let ?w0 = "w\<lparr>json_file_iterator := 0, response_flag := True\<rparr>"
  have c: "final_view (snd (CleanUpJSONsFolder E ?w0)) = final_view w"
    using CleanUpJSONsFolder_keeps [of E] by (simp add: keeps_final_def)
  have loop: "keeps_final (for_each (extract_group f (service_URL E)) gs)" for f gs
    by (rule for_each_keeps) (rule extract_group_keeps)
  have k3: "keeps_final (\<lambda>w3.
              case IterableChunk record_extraction_hardcode objectID_Manifest of
                Inl e \<Rightarrow> (Raised e, w3)
              | Inr (total_iterations, objectID_Groups) \<Rightarrow>
                  for_each (extract_group objectID_Field_Name (service_URL E))
                    objectID_Groups w3)" for objectID_Field_Name objectID_Manifest
    using loop by (auto simp: keeps_final_def split: sum.splits)
  have k2: "keeps_final (\<lambda>w2.
         and_then (ServiceGetObjectIDs E (service_URL E) w2)
           (\<lambda>(objectID_Field_Name, objectID_Manifest) w3.
              case IterableChunk record_extraction_hardcode objectID_Manifest of
                Inl e \<Rightarrow> (Raised e, w3)
              | Inr (total_iterations, objectID_Groups) \<Rightarrow>
                  for_each (extract_group objectID_Field_Name (service_URL E))
                    objectID_Groups w3))"
    unfolding keeps_final_def
  proof
    fix w2 :: world
    have "final_view (snd (ServiceGetObjectIDs E (service_URL E) w2)) = final_view w2"
      using ServiceGetObjectIDs_keeps [of E] by (simp add: keeps_final_def)
    then show "final_view (snd (and_then (ServiceGetObjectIDs E (service_URL E) w2)
           (\<lambda>(objectID_Field_Name, objectID_Manifest) w3.
              case IterableChunk record_extraction_hardcode objectID_Manifest of
                Inl e \<Rightarrow> (Raised e, w3)
              | Inr (total_iterations, objectID_Groups) \<Rightarrow>
                  for_each (extract_group objectID_Field_Name (service_URL E))
                    objectID_Groups w3))) = final_view w2"
      by (rule and_then_keeps) (use k3 in \<open>simp add: split_def\<close>)
  qed
  have k1: "keeps_final (\<lambda>w1.
         and_then (ServiceGetRecordExtract E (service_URL E) w1) (\<lambda>service_request_MAX w2.
         and_then (ServiceGetObjectIDs E (service_URL E) w2)
           (\<lambda>(objectID_Field_Name, objectID_Manifest) w3.
              case IterableChunk record_extraction_hardcode objectID_Manifest of
                Inl e \<Rightarrow> (Raised e, w3)
              | Inr (total_iterations, objectID_Groups) \<Rightarrow>
                  for_each (extract_group objectID_Field_Name (service_URL E))
                    objectID_Groups w3)))"
    unfolding keeps_final_def
  proof
    fix w1 :: world
    have "final_view (snd (ServiceGetRecordExtract E (service_URL E) w1)) = final_view w1"
      using ServiceGetRecordExtract_keeps [of E] by (simp add: keeps_final_def)
    then show "final_view (snd (and_then (ServiceGetRecordExtract E (service_URL E) w1)
        (\<lambda>service_request_MAX w2.
         and_then (ServiceGetObjectIDs E (service_URL E) w2)
           (\<lambda>(objectID_Field_Name, objectID_Manifest) w3.
              case IterableChunk record_extraction_hardcode objectID_Manifest of
                Inl e \<Rightarrow> (Raised e, w3)
              | Inr (total_iterations, objectID_Groups) \<Rightarrow>
                  for_each (extract_group objectID_Field_Name (service_URL E))
                    objectID_Groups w3)))) = final_view w1"
      by (rule and_then_keeps) (rule k2)
  qed
  show "final_view (snd (staging E w)) = final_view w"
    unfolding staging_def Let_def
    by (rule and_then_keeps [OF c]) (rule k1)
qed

section \<open>The conversion stage\<close>


lemma converted_of_conversions [simp]: "converted_of (map conversion_event files) = files"
  by (induction files) (simp_all add: conversion_event_def)

lemma convert_file_cases:
  "convert_file E file w =
     (if convertible E w file
      then (Done (),
            (log (conversion_event file) w)
              \<lparr>intermediate_gdb :=
                 map_option
                   (write_file (''chunk_'' @ split_dot_0 file)
                      (the (converter E (the (map_of (out_json_folder w) file)))))
                   (intermediate_gdb w)\<rparr>)
      else (Raised ExecuteError, log (conversion_event file) w))"
  by (auto simp: convert_file_def convertible_def conversion_event_def Let_def log_def
      split: option.splits)

lemma convertible_frame:
  "out_json_folder w' = out_json_folder w \<Longrightarrow> convertible E w' file = convertible E w file"
  by (simp add: convertible_def)

lemma convert_loop:
  "for_each (convert_file E) files w = (res, w') \<Longrightarrow>
   out_json_folder w' = out_json_folder w
   \<and> final_view w' = final_view w
   \<and> (res = Done () \<or> res = Raised ExecuteError)
   \<and> (res = Done () \<longleftrightarrow> (\<forall>file \<in> set files. convertible E w file))
   \<and> (\<exists>k \<le> length files.
         events w' = events w @ map conversion_event (take k files)
         \<and> (res = Done () \<longrightarrow> k = length files))"
proof (induction files arbitrary: w)
  case Nil
  then show ?case by auto
next
  case (Cons a files)
  show ?case
  proof (cases "convertible E w a")
    case False
    with Cons.prems have r: "res = Raised ExecuteError" and w': "w' = log (conversion_event a) w"
      by (simp_all add: convert_file_cases [of E a w])
    have ev: "events w' = events w @ map conversion_event (take 1 (a # files))"
      by (simp add: w' log_def)
    have "(1 :: nat) \<le> length (a # files)" by simp
    with ev r have ex: "\<exists>k \<le> length (a # files).
         events w' = events w @ map conversion_event (take k (a # files))
         \<and> (res = Done () \<longrightarrow> k = length (a # files))"
      by blast
    have "out_json_folder w' = out_json_folder w"
      by (simp add: w' log_def)
    moreover have "final_view w' = final_view w"
      unfolding w' by (rule final_view_log) (simp add: conversion_event_def)
    moreover have "res = Done () \<longleftrightarrow> (\<forall>x \<in> set (a # files). convertible E w x)"
      using r False by simp
    ultimately show ?thesis
      using r ex by blast
  next
    case True
    let ?w1 = "(log (conversion_event a) w)
              \<lparr>intermediate_gdb :=
                 map_option
                   (write_file (''chunk_'' @ split_dot_0 a)
                      (the (converter E (the (map_of (out_json_folder w) a)))))
                   (intermediate_gdb w)\<rparr>"
    from True Cons.prems have rest: "for_each (convert_file E) files ?w1 = (res, w')"
      by (simp add: convert_file_cases [of E a w])
    have o1: "out_json_folder ?w1 = out_json_folder w"
      by (simp add: log_def)
    have f1: "final_view ?w1 = final_view w"
      by (simp add: final_view_log conversion_event_def)
    have e1: "events ?w1 = events w @ [conversion_event a]"
      by (simp add: log_def)
    from Cons.IH [OF rest] obtain k where
      o: "out_json_folder w' = out_json_folder ?w1" and f: "final_view w' = final_view ?w1"
      and r: "res = Done () \<or> res = Raised ExecuteError"
      and all: "res = Done () \<longleftrightarrow> (\<forall>x \<in> set files. convertible E ?w1 x)"
      and k: "k \<le> length files" "events w' = events ?w1 @ map conversion_event (take k files)"
        "res = Done () \<longrightarrow> k = length files"
      by blast
    have "events w' = events w @ map conversion_event (take (Suc k) (a # files))"
      unfolding k(2) e1 by simp
    moreover have "Suc k \<le> length (a # files)" using k by simp
    moreover have "res = Done () \<longrightarrow> Suc k = length (a # files)" using k by simp
    ultimately have "\<exists>k \<le> length (a # files).
         events w' = events w @ map conversion_event (take k (a # files))
         \<and> (res = Done () \<longrightarrow> k = length (a # files))"
      by blast
    moreover have "res = Done () \<longleftrightarrow> (\<forall>x \<in> set (a # files). convertible E w x)"
      using all True convertible_frame [OF o1] by simp
    ultimately show ?thesis
      using o f r o1 f1 by simp
  qed
qed

lemma ConvertJSONstoFeatureClasses_loop:
  "\<exists>pre w2. ConvertJSONstoFeatureClasses E w = for_each (convert_file E) (os_listdir E w) w2
     \<and> events w2 = events w @ pre \<and> converted_of pre = [] \<and> filter touches_final pre = []
     \<and> out_json_folder w2 = out_json_folder w
     \<and> final_featureclass w2 = final_featureclass w
     \<and> intermediate_gdb w2 = Some []"
proof -
  let ?w1 = "if intermediate_gdb w \<noteq> None
             then log DeleteIntermediateGDB (w\<lparr>intermediate_gdb := None\<rparr>) else w"
  let ?w2 = "log CreateIntermediateGDB (?w1\<lparr>intermediate_gdb := Some []\<rparr>)"
  let ?pre = "(if intermediate_gdb w \<noteq> None then [DeleteIntermediateGDB] else [])
      @ [CreateIntermediateGDB]"
  have l: "ListFeatureClasses ?w2 = []"
    by (simp add: ListFeatureClasses_def log_def)
  have d: "os_listdir E ?w2 = os_listdir E w"
    by (simp add: os_listdir_def log_def)
  have "ConvertJSONstoFeatureClasses E w = for_each (convert_file E) (os_listdir E w) ?w2"
    unfolding ConvertJSONstoFeatureClasses_def Let_def l for_each.simps and_then_Done d ..
  moreover have "events ?w2 = events w @ ?pre" "converted_of ?pre = []"
    "filter touches_final ?pre = []" "out_json_folder ?w2 = out_json_folder w"
    "final_featureclass ?w2 = final_featureclass w" "intermediate_gdb ?w2 = Some []"
    by (simp_all add: log_def)
  ultimately show ?thesis by blast
qed

lemma os_listdir_names:
  "set (os_listdir E w) = fst ` set (out_json_folder w)"
  "distinct (os_listdir E w)"
  "sorted (map (listdir_rank E) (os_listdir E w))"
  by (simp_all add: os_listdir_def)







lemma final_view_eq:
  "final_view w' = final_view w \<longleftrightarrow>
   final_featureclass w' = final_featureclass w
   \<and> filter touches_final (events w') = filter touches_final (events w)"
  by (simp add: final_view_def)

lemma ConvertJSONstoFeatureClasses_fails:
  assumes "map_of (out_json_folder w) name = Some data" and "converter E data = None"
  shows "\<exists>w'. ConvertJSONstoFeatureClasses E w = (Raised ExecuteError, w')
     \<and> final_view w' = final_view w"
proof -
  from ConvertJSONstoFeatureClasses_loop [of E w] obtain pre w2 where
    c: "ConvertJSONstoFeatureClasses E w = for_each (convert_file E) (os_listdir E w) w2"
    and e2: "events w2 = events w @ pre" and p: "filter touches_final pre = []"
    and o2: "out_json_folder w2 = out_json_folder w"
    and f2: "final_featureclass w2 = final_featureclass w"
    by blast
  obtain res w' where l: "for_each (convert_file E) (os_listdir E w) w2 = (res, w')"
    by (cases "for_each (convert_file E) (os_listdir E w) w2") blast
  from assms(1) have "name \<in> fst ` set (out_json_folder w)"
    by (metis domI dom_map_of_conv_image_fst)
  then have "name \<in> set (os_listdir E w)"
    by (simp add: os_listdir_names)
  moreover from assms have "\<not> convertible E w2 name"
    by (simp add: convertible_def o2)
  ultimately have "\<not> (\<forall>file \<in> set (os_listdir E w). convertible E w2 file)"
    by blast
  with convert_loop [OF l] have "res = Raised ExecuteError" and "final_view w' = final_view w2"
    by auto
  moreover have "final_view w2 = final_view w"
    by (simp add: final_view_def e2 p f2)
  ultimately show ?thesis
    using c l by simp
qed

text \<open>
  C3. If the staging has returned and one staged payload is refused by the converter,
  the run ends with the converter's exception, and the destination is as it was before
  the run: the destination feature class is unchanged and no delete, create or append
  on the destination has happened (they come only after every conversion returned).
\<close>

theorem C3_conversion_failure_leaves_destination:
  "staging E w = (Done (), w4) \<and> map_of (out_json_folder w4) name = Some data
     \<and> converter E data = None \<longrightarrow>
   (\<exists>w'. main E w = (Raised ExecuteError, w')
      \<and> final_featureclass w' = final_featureclass w
      \<and> filter touches_final (events w') = filter touches_final (events w))"
proof
  assume a: "staging E w = (Done (), w4) \<and> map_of (out_json_folder w4) name = Some data
     \<and> converter E data = None"
  then have "final_view w4 = final_view w"
    using staging_keeps [of E] by (auto simp: keeps_final_def dest: spec [of _ w])
  moreover from a obtain w' where
    c: "ConvertJSONstoFeatureClasses E w4 = (Raised ExecuteError, w')"
    and "final_view w' = final_view w4"
    using ConvertJSONstoFeatureClasses_fails [of w4 name data E] by blast
  ultimately have "final_view w' = final_view w" by simp
  moreover from a c have "main E w = (Raised ExecuteError, w')"
    by (simp add: main_def)
  ultimately show "\<exists>w'. main E w = (Raised ExecuteError, w')
      \<and> final_featureclass w' = final_featureclass w
      \<and> filter touches_final (events w') = filter touches_final (events w)"
    by (auto simp: final_view_eq)
qed

theorem C3_conversion_failure_leaves_destination_witness:
  "\<exists>w4 w'.
     staging failing_env
       (idle_world\<lparr>net := [Response capabilities_reply, Response one_id_reply, Response success],
                    final_featureclass := Some old_featureclass\<rparr>) = (Done (), w4)
     \<and> map_of (out_json_folder w4) ''000001.json'' = Some (content success)
     \<and> converter failing_env (content success) = None
     \<and> main failing_env
         (idle_world\<lparr>net := [Response capabilities_reply, Response one_id_reply, Response success],
                      final_featureclass := Some old_featureclass\<rparr>) = (Raised ExecuteError, w')
     \<and> final_featureclass w' = Some old_featureclass
     \<and> filter touches_final (events w') = []"
proof -
  let ?w = "idle_world\<lparr>net := [Response capabilities_reply, Response one_id_reply,
                                 Response success],
                        final_featureclass := Some old_featureclass\<rparr>"
  have "out_json_folder ?w = []"
    "net ?w = Response capabilities_reply # Response one_id_reply # Response success # []"
    by (simp_all add: idle_world_def)
  moreover have "decode_maxRecordCount failing_env (content capabilities_reply) = Inr 1000"
    "decode_objectIds failing_env (content one_id_reply) = Inr (''OBJECTID'', [7])"
    by (simp_all add: failing_env_def example_env_def)
  moreover have "[7] \<noteq> ([] :: int list)" "length [7 :: int] \<le> 30000"
    by simp_all
  ultimately obtain w4 where st: "staging failing_env ?w = (Done (), w4)"
    and o4: "out_json_folder w4 = [(staged_name (length [7 :: int]), content success)]"
    using staging_single_page [of ?w capabilities_reply one_id_reply success "[]" failing_env
        1000 "''OBJECTID''" "[7]"] not_failed_success
    by simp
  have m: "map_of (out_json_folder w4) ''000001.json'' = Some (content success)"
    by (simp add: o4 staged_name_1)
  have cv: "converter failing_env (content success) = None"
    by (simp add: failing_env_def)
  from C3_conversion_failure_leaves_destination
    [of failing_env ?w w4 "''000001.json''" "content success"] st m cv
  obtain w' where "main failing_env ?w = (Raised ExecuteError, w')"
    "final_featureclass w' = final_featureclass ?w"
    "filter touches_final (events w') = filter touches_final (events ?w)"
    by blast
  moreover have "final_featureclass ?w = Some old_featureclass"
    "filter touches_final (events ?w) = []"
    by (simp_all add: idle_world_def)
  ultimately show ?thesis
    using st m cv by auto
qed

section \<open>The empty manifest\<close>

lemma main_empty_manifest:
  assumes folder: "out_json_folder w = []"
    and net: "net w = Response r1 # Response r2 # rest"
    and d1: "decode_maxRecordCount E (content r1) = Inr m"
    and d2: "decode_objectIds E (content r2) = Inr (f, [])"
  shows "\<exists>w'. main E w = (Raised IndexError, w') \<and> final_featureclass w' = None
     \<and> (final_featureclass w \<noteq> None \<longrightarrow> DeleteFinal \<in> set (events w'))"
proof -
  let ?w4 = "w\<lparr>json_file_iterator := 0, response_flag := True, net := rest,
        events := events w
          @ [Get (service_URL E @ ''?f=pjson''),
             Get (service_URL E @ ''/query?where=1%3D1&returnIdsOnly=true&f=json'')]\<rparr>"
  have st: "staging E w = (Done (), ?w4)"
    using assms by (rule staging_empty_manifest)
  from ConvertJSONstoFeatureClasses_loop [of E ?w4] obtain pre w5 where
    c: "ConvertJSONstoFeatureClasses E ?w4 = for_each (convert_file E) (os_listdir E ?w4) w5"
    and f5: "final_featureclass w5 = final_featureclass ?w4"
    and g5: "intermediate_gdb w5 = Some []"
    by blast
  have "os_listdir E ?w4 = []"
    by (simp add: os_listdir_def folder)
  with c have cv: "ConvertJSONstoFeatureClasses E ?w4 = (Done (), w5)"
    by simp
  let ?w6 = "if final_featureclass w5 \<noteq> None
             then log DeleteFinal (w5\<lparr>final_featureclass := None\<rparr>) else w5"
  have rp: "ReplaceFinalFeatureClassWithIntermediateFeatureClasses w5 = (Raised IndexError, ?w6)"
    by (simp add: ReplaceFinalFeatureClassWithIntermediateFeatureClasses_def Let_def g5 log_def)
  have "main E w = (Raised IndexError, ?w6)"
    by (simp add: main_def st cv rp)
  moreover have "final_featureclass ?w6 = None"
    by (simp add: log_def)
  moreover have "final_featureclass w \<noteq> None \<longrightarrow> DeleteFinal \<in> set (events ?w6)"
    using f5 by (simp add: log_def)
  ultimately show ?thesis by blast
qed

text \<open>
  C7. On a layer whose manifest is empty the planner returns no chunk and no error, but
  the run does not complete: with a destination feature class in place,
  \<open>ReplaceFinalFeatureClassWithIntermediateFeatureClasses\<close> deletes it and then raises
  \<open>IndexError\<close> at \<open>list_fc[0]\<close>, the intermediate workspace being empty.
\<close>

theorem C7_empty_manifest_run_raises_after_deleting_destination:
  "IterableChunk record_extraction_hardcode [] = Inr (0, [])
   \<and> final_featureclass
       (idle_world\<lparr>net := [Response capabilities_reply, Response no_ids_reply],
                    final_featureclass := Some old_featureclass\<rparr>) = Some old_featureclass
   \<and> fst (main example_env
       (idle_world\<lparr>net := [Response capabilities_reply, Response no_ids_reply],
                    final_featureclass := Some old_featureclass\<rparr>)) = Raised IndexError
   \<and> final_featureclass (snd (main example_env
       (idle_world\<lparr>net := [Response capabilities_reply, Response no_ids_reply],
                    final_featureclass := Some old_featureclass\<rparr>))) = None"
proof -
  let ?w = "idle_world\<lparr>net := [Response capabilities_reply, Response no_ids_reply],
                        final_featureclass := Some old_featureclass\<rparr>"
  have "out_json_folder ?w = []"
    "net ?w = Response capabilities_reply # Response no_ids_reply # []"
    by (simp_all add: idle_world_def)
  moreover have "decode_maxRecordCount example_env (content capabilities_reply) = Inr 1000"
    "decode_objectIds example_env (content no_ids_reply) = Inr (''OBJECTID'', [])"
    by (simp_all add: example_env_def one_id_reply_def no_ids_reply_def)
  ultimately obtain w' where "main example_env ?w = (Raised IndexError, w')"
    "final_featureclass w' = None"
    using main_empty_manifest [of ?w capabilities_reply no_ids_reply "[]" example_env 1000
        "''OBJECTID''"]
    by blast
  moreover have "IterableChunk record_extraction_hardcode [] = Inr (0, [])"
    by (simp add: IterableChunk_strides record_extraction_hardcode_def)
  moreover have "final_featureclass ?w = Some old_featureclass"
    by simp
  ultimately show ?thesis by simp
qed

section \<open>The flag across calls\<close>

lemma session_get_flag:
  "session_get url w = (r, w') \<Longrightarrow> response_flag w' = response_flag w"
  by (auto simp: session_get_def log_def split: list.splits http_result.splits)

lemma CleanUpJSONsFolder_flag:
  "CleanUpJSONsFolder E w = (r, w') \<Longrightarrow> response_flag w' = response_flag w"
proof -
  have "for_each os_remove names v = (r, v') \<Longrightarrow> response_flag v' = response_flag v"
    for names v v'
  proof (induction names arbitrary: v)
    case Nil
    then show ?case by simp
  next
    case (Cons a names)
    show ?case
    proof (cases "a \<in> set (map fst (out_json_folder v))")
      case False
      then have "os_remove a v = (Raised FileNotFoundError, v)"
        by (simp add: os_remove_def [of a v])
      with Cons.prems show ?thesis by simp
    next
      case True
      let ?v1 = "log (RemoveFile a)
          (v\<lparr>out_json_folder := filter (\<lambda>(n, d). n \<noteq> a) (out_json_folder v)\<rparr>)"
      from True have "os_remove a v = (Done (), ?v1)"
        by (simp add: os_remove_def [of a v])
      with Cons.prems have "for_each os_remove names ?v1 = (r, v')"
        by simp
      from Cons.IH [OF this] show ?thesis by (simp add: log_def)
    qed
  qed
  then show "CleanUpJSONsFolder E w = (r, w') \<Longrightarrow> response_flag w' = response_flag w"
    by (simp add: CleanUpJSONsFolder_def)
qed

lemma staging_flag:
  assumes "staging E w = (Done (), w4)"
  shows "response_flag w4"
proof -
  let ?w0 = "w\<lparr>json_file_iterator := 0, response_flag := True\<rparr>"
  obtain r1 w1 where c: "CleanUpJSONsFolder E ?w0 = (r1, w1)"
    by (cases "CleanUpJSONsFolder E ?w0") blast
  from CleanUpJSONsFolder_flag [OF c] have f1: "response_flag w1" by simp
  obtain r2 w2 where g1: "session_get (service_URL E @ ''?f=pjson'') w1 = (r2, w2)"
    by (cases "session_get (service_URL E @ ''?f=pjson'') w1") blast
  from session_get_flag [OF g1] f1 have f2: "response_flag w2" by simp
  obtain r3 w3 where g2: "session_get
      (service_URL E @ ''/query?where=1%3D1&returnIdsOnly=true&f=json'') w2 = (r3, w3)"
    by (cases "session_get
      (service_URL E @ ''/query?where=1%3D1&returnIdsOnly=true&f=json'') w2") blast
  from session_get_flag [OF g2] f2 have f3: "response_flag w3" by simp
  from assms c g1 g2 obtain f gs where "for_each (extract_group f (service_URL E)) gs w3
      = (Done (), w4)"
    by (auto simp: staging_def Let_def and_then_def ServiceGetRecordExtract_def
        ServiceGetObjectIDs_def split: result.splits sum.splits prod.splits)
  with f3 show ?thesis
    by (rule extraction_loop_flag)
qed

text \<open>
  C10. \<open>QueryExtractionRequest\<close> returns only with \<open>response_flag\<close> set, whatever
  the flag was at entry. In the main loop, started with the flag set, the world in which
  the call for any group \<open>g\<close> begins has the flag set, and so has the world after the
  loop. Entered with the flag set, a call whose first response is accepted issues one
  request and writes that response: an earlier chunk's failures do not make it retry.
  The script sets the flag before anything else, and the staging, when it returns,
  leaves it set.
\<close>

theorem C10_response_flag_invariant:
  "(QueryExtractionRequest mn mx f u w = (Done (), w') \<longrightarrow> response_flag w')
   \<and> (response_flag v \<and> for_each (extract_group f u) (gs1 @ g # gs2) v = (res, v2) \<longrightarrow>
        (\<exists>r1 v1. for_each (extract_group f u) gs1 v = (r1, v1)
           \<and> (r1 = Done () \<longrightarrow>
                 response_flag v1
                 \<and> and_then (extract_group f u g v1) (\<lambda>_. for_each (extract_group f u) gs2)
                     = (res, v2))))
   \<and> (response_flag v \<and> for_each (extract_group f u) gs v = (Done (), v3) \<longrightarrow> response_flag v3)
   \<and> (response_flag x \<and> \<not> failed s \<and> net x = Response s # rest \<longrightarrow>
        (\<exists>x'. QueryExtractionRequest mn mx f u x = (Done (), x')
           \<and> gets_of (events x') = gets_of (events x) @ [queryURL_of mn mx f u]
           \<and> writes_of (events x')
               = writes_of (events x) @ [(staged_name (json_file_iterator x), content s)]))
   \<and> (staging E z = (Done (), z4) \<longrightarrow> response_flag z4)"
proof (intro conjI impI)
  assume "QueryExtractionRequest mn mx f u w = (Done (), w')"
  from QueryExtractionRequest_returns [OF this] show "response_flag w'"
    by blast
next
  assume a: "response_flag v \<and> for_each (extract_group f u) (gs1 @ g # gs2) v = (res, v2)"
  then obtain r1 v1 where p: "for_each (extract_group f u) gs1 v = (r1, v1)"
    and c: "case r1 of Done _ \<Rightarrow> for_each (extract_group f u) (g # gs2) v1 = (res, v2)
          | _ \<Rightarrow> res = r1 \<and> v2 = v1"
    using extraction_loop_split [of f u gs1 "g # gs2" v res v2] by blast
  have "r1 = Done () \<longrightarrow>
          response_flag v1
          \<and> and_then (extract_group f u g v1) (\<lambda>_. for_each (extract_group f u) gs2) = (res, v2)"
  proof
    assume d: "r1 = Done ()"
    with p a have "response_flag v1"
      using extraction_loop_flag [of v f u gs1 v1] by simp
    moreover from d c
    have "and_then (extract_group f u g v1) (\<lambda>_. for_each (extract_group f u) gs2) = (res, v2)"
      by simp
    ultimately show "response_flag v1
          \<and> and_then (extract_group f u g v1) (\<lambda>_. for_each (extract_group f u) gs2) = (res, v2)"
      by simp
  qed
  with p show "\<exists>r1 v1. for_each (extract_group f u) gs1 v = (r1, v1)
           \<and> (r1 = Done () \<longrightarrow>
                 response_flag v1
                 \<and> and_then (extract_group f u g v1) (\<lambda>_. for_each (extract_group f u) gs2)
                     = (res, v2))"
    by blast
next
  assume "response_flag v \<and> for_each (extract_group f u) gs v = (Done (), v3)"
  then show "response_flag v3"
    using extraction_loop_flag [of v f u gs v3] by simp
next
  assume a: "response_flag x \<and> \<not> failed s \<and> net x = Response s # rest"
  let ?url = "queryURL_of mn mx f u"
  let ?new = "Get ?url # Sleep query_request_standard_pause
                # backoff_events ?url 30 (length ([] :: response list))
                @ [WriteFile (staged_name (json_file_iterator x)) (content s)]"
  let ?x' = "x\<lparr>net := rest, events := events x @ ?new,
        out_json_folder :=
          write_file (staged_name (json_file_iterator x)) (content s) (out_json_folder x)\<rparr>"
  from a have "QueryExtractionRequest mn mx f u x = (Done (), ?x')"
    by (intro QueryExtractionRequest_served) simp_all
  moreover have "gets_of (events ?x') = gets_of (events x) @ [?url]"
    by (simp add: gets_of_append)
  moreover have "writes_of (events ?x')
      = writes_of (events x) @ [(staged_name (json_file_iterator x), content s)]"
    by (simp add: writes_of_append)
  ultimately show "\<exists>x'. QueryExtractionRequest mn mx f u x = (Done (), x')
           \<and> gets_of (events x') = gets_of (events x) @ [queryURL_of mn mx f u]
           \<and> writes_of (events x')
               = writes_of (events x) @ [(staged_name (json_file_iterator x), content s)]"
    by blast
next
  assume "staging E z = (Done (), z4)"
  then show "response_flag z4"
    by (rule staging_flag)
qed

theorem C10_response_flag_invariant_witness:
  "response_flag (idle_world\<lparr>net := [Response soft_error, Response success, Response success]\<rparr>)
   \<and> \<not> failed success
   \<and> (\<exists>v1 v2.
         for_each (extract_group ''OBJECTID'' ''https://host/FeatureServer/0'') [[5, 8, 9]]
           (idle_world\<lparr>net := [Response soft_error, Response success, Response success]\<rparr>)
           = (Done (), v1)
         \<and> response_flag v1
         \<and> net v1 = [Response success]
         \<and> for_each (extract_group ''OBJECTID'' ''https://host/FeatureServer/0'')
             [[5, 8, 9], [12, 40, 41]]
             (idle_world\<lparr>net := [Response soft_error, Response success, Response success]\<rparr>)
             = (Done (), v2)
         \<and> response_flag v2
         \<and> (\<exists>x'. QueryExtractionRequest ''12'' ''41'' ''OBJECTID'' ''https://host/FeatureServer/0'' v1
                = (Done (), x')
              \<and> response_flag x'
              \<and> gets_of (events x') = gets_of (events v1)
                   @ [queryURL_of ''12'' ''41'' ''OBJECTID'' ''https://host/FeatureServer/0'']))
   \<and> (\<exists>z4. staging example_env
         (idle_world\<lparr>net := [Response capabilities_reply, Response one_id_reply,
                               Response success]\<rparr>) = (Done (), z4)
        \<and> response_flag z4)"
proof -
  let ?f = "''OBJECTID''" and ?u = "''https://host/FeatureServer/0''"
  let ?v = "idle_world\<lparr>net := [Response soft_error, Response success, Response success]\<rparr>"
  have flag: "response_flag ?v" by (simp add: idle_world_def)
  have fs: "\<forall>r \<in> set [soft_error]. failed r" by (simp add: failed_soft_error)
  have netv: "net ?v = map Response [soft_error] @ Response success # [Response success]"
    by (simp add: idle_world_def)
  obtain v1 where e1: "extract_group ?f ?u [5, 8, 9] ?v = (Done (), v1)"
    and n1: "net v1 = [Response success]" and f1: "response_flag v1"
    using extract_group_served [OF _ flag fs not_failed_success netv, of "[5, 8, 9]" ?f ?u] flag
    by simp
  have n1': "net v1 = map Response [] @ Response success # []"
    using n1 by simp
  have nofs: "\<forall>r \<in> set ([] :: response list). failed r" by simp
  obtain v2 where e2: "extract_group ?f ?u [12, 40, 41] v1 = (Done (), v2)"
    using extract_group_served [OF _ f1 nofs not_failed_success n1', of "[12, 40, 41]" ?f ?u]
    by simp
  have l1: "for_each (extract_group ?f ?u) [[5, 8, 9]] ?v = (Done (), v1)"
    by (simp add: e1 and_then_def)
  have l2: "for_each (extract_group ?f ?u) [[5, 8, 9], [12, 40, 41]] ?v = (Done (), v2)"
    by (simp add: e1 e2 and_then_def)
  have hx: "response_flag v1 \<and> \<not> failed success \<and> net v1 = Response success # []"
    using f1 n1 not_failed_success by simp
  note c10 = C10_response_flag_invariant
    [of "''12''" "''41''" ?f ?u v1 "snd (QueryExtractionRequest ''12'' ''41'' ?f ?u v1)"
      ?v "[[5, 8, 9]]" "[12, 40, 41]" "[]" "Done ()" v2 "[[5, 8, 9], [12, 40, 41]]" v2
      v1 success "[]" example_env
      "idle_world\<lparr>net := [Response capabilities_reply, Response one_id_reply,
                            Response success]\<rparr>"
      "snd (staging example_env
         (idle_world\<lparr>net := [Response capabilities_reply, Response one_id_reply,
                               Response success]\<rparr>))"]
  from c10 hx obtain x' where
    q: "QueryExtractionRequest ''12'' ''41'' ?f ?u v1 = (Done (), x')"
    and gx: "gets_of (events x') = gets_of (events v1) @ [queryURL_of ''12'' ''41'' ?f ?u]"
    by blast
  from q have "QueryExtractionRequest ''12'' ''41'' ?f ?u v1
      = (Done (), snd (QueryExtractionRequest ''12'' ''41'' ?f ?u v1))"
    by simp
  with c10 q have fx: "response_flag x'" by simp
  from c10 flag l2 have f2: "response_flag v2" by blast
  let ?z = "idle_world\<lparr>net := [Response capabilities_reply, Response one_id_reply,
                                 Response success]\<rparr>"
  have sz: "staging example_env ?z = (Done (), snd (staging example_env ?z))"
    by (simp add: staging_one_id)
  with c10 have "response_flag (snd (staging example_env ?z))"
    by blast
  with sz have z: "\<exists>z4. staging example_env ?z = (Done (), z4) \<and> response_flag z4"
    by blast
  from flag not_failed_success l1 f1 n1 l2 f2 q fx gx
  have "\<exists>v1 v2.
         for_each (extract_group ?f ?u) [[5, 8, 9]] ?v = (Done (), v1)
         \<and> response_flag v1
         \<and> net v1 = [Response success]
         \<and> for_each (extract_group ?f ?u) [[5, 8, 9], [12, 40, 41]] ?v = (Done (), v2)
         \<and> response_flag v2
         \<and> (\<exists>x'. QueryExtractionRequest ''12'' ''41'' ?f ?u v1 = (Done (), x')
              \<and> response_flag x'
              \<and> gets_of (events x') = gets_of (events v1)
                   @ [queryURL_of ''12'' ''41'' ?f ?u])"
    by blast
  with flag not_failed_success z show ?thesis
    by blast
qed

section \<open>The main loop on a served trace\<close>

lemma writes_of_loop_events:
  "length served = length groups \<Longrightarrow>
   writes_of (loop_events f u n groups served)
     = zip (map staged_name (running_totals n groups)) (map (\<lambda>p. content (snd p)) served)"
proof (induction served groups arbitrary: n rule: list_induct2)
  case Nil
  then show ?case by simp
next
  case (Cons p served g groups)
  then show ?case
    by (cases p) (simp add: writes_of_append writes_of_backoff)
qed

lemma extraction_loop_served:
  assumes "length served = length groups" and "[] \<notin> set groups"
    and "list_all served_ok served" and "net w = served_trace served @ rest"
    and "response_flag w"
  shows "for_each (extract_group f u) groups w =
     (Done (),
      w\<lparr>json_file_iterator := json_file_iterator w + sum_list (map length groups),
        net := rest,
        events := events w @ loop_events f u (json_file_iterator w) groups served,
        out_json_folder :=
          foldl (\<lambda>folder (name, data). write_file name data folder) (out_json_folder w)
            (zip (map staged_name (running_totals (json_file_iterator w) groups))
               (map (\<lambda>p. content (snd p)) served))\<rparr>)"
  using assms
proof (induction served groups arbitrary: w rule: list_induct2)
  case Nil
  then show ?case by simp
next
  case (Cons p served g groups)
  obtain fs s where p: "p = (fs, s)" by (cases p)
  from Cons.prems p have g: "g \<noteq> []" and gs: "[] \<notin> set groups"
    and fs: "\<forall>r \<in> set fs. failed r" and s: "\<not> failed s" and others: "list_all served_ok served"
    and net: "net w = map Response fs @ Response s # (served_trace served @ rest)"
    and flag: "response_flag w"
    by (auto simp: served_ok_def list_all_iff)
  let ?url = "queryURL_of (str_int (hd g)) (str_int (last g)) f u"
  let ?w1 = "w\<lparr>json_file_iterator := json_file_iterator w + length g,
        net := served_trace served @ rest,
        events := events w
          @ Get ?url # Sleep query_request_standard_pause
          # backoff_events ?url 30 (length fs)
          @ [WriteFile (staged_name (json_file_iterator w + length g)) (content s)],
        out_json_folder :=
          write_file (staged_name (json_file_iterator w + length g)) (content s)
            (out_json_folder w)\<rparr>"
  have one: "extract_group f u g w = (Done (), ?w1)"
    using g flag fs s net by (rule extract_group_served)
  have n1: "net ?w1 = served_trace served @ rest" and f1: "response_flag ?w1"
    using flag by simp_all
  note rest = Cons.IH [OF gs others n1 f1]
  show ?case
    unfolding for_each.simps one and_then_Done rest
    by (simp add: p add.assoc)
qed


lemma retry_loop_consumed:
  "retry_loop url t r w = (Done r', w') \<Longrightarrow> net w = ns \<Longrightarrow> \<not> ok r \<or> \<not> response_flag w \<Longrightarrow>
   \<exists>fs. net w = map Response fs @ Response r' # net w' \<and> list_all failed fs \<and> \<not> failed r'"
proof (induction ns arbitrary: t r w)
  case Nil
  then show ?case by (simp add: retry_loop_blocked)
next
  case (Cons a ns)
  show ?case
  proof (cases a)
    case ConnectionFailed
    with Cons.prems show ?thesis by (simp add: retry_loop_raised)
  next
    case (Response x)
    let ?w = "w\<lparr>net := ns, events := events w @ [Sleep (t * 2), Get url],
                 response_flag := \<not> bytes_in server_error_message (content x)\<rparr>"
    from Cons.prems Response have step: "retry_loop url (t * 2) x ?w = (Done r', w')"
      by (simp add: retry_loop_step)
    show ?thesis
    proof (cases "failed x")
      case False
      then have "ok x" "response_flag ?w" by (simp_all add: failed_def)
      then have "retry_loop url (t * 2) x ?w = (Done x, ?w)"
        by (rule retry_loop_done)
      with step [symmetric] have "(Done r', w') = (Done x, ?w)"
        by (rule trans)
      then have "r' = x" "w' = ?w" by simp_all
      with False Cons.prems(2) Response have
        "net w = map Response [] @ Response r' # net w' \<and> list_all failed [] \<and> \<not> failed r'"
        by simp
      then show ?thesis by blast
    next
      case True
      then have "\<not> ok x \<or> \<not> response_flag ?w" by (auto simp: failed_def)
      from Cons.IH [OF step _ this] obtain fs where
        "ns = map Response fs @ Response r' # net w'" "list_all failed fs" "\<not> failed r'"
        by auto
      with True Cons.prems(2) Response have
        "net w = map Response (x # fs) @ Response r' # net w' \<and> list_all failed (x # fs)
         \<and> \<not> failed r'"
        by simp
      then show ?thesis by blast
    qed
  qed
qed

lemma QueryExtractionRequest_consumed:
  assumes run: "QueryExtractionRequest mn mx f u w = (Done (), w')" and flag: "response_flag w"
  shows "\<exists>fs s. net w = map Response fs @ Response s # net w' \<and> list_all failed fs \<and> \<not> failed s"
proof -
  let ?url = "queryURL_of mn mx f u"
  from run obtain r w1 where sg: "session_get ?url w = (Done r, w1)"
    by (auto simp: QueryExtractionRequest_def Let_def split: prod.splits result.splits)
  then have nw: "net w = Response r # net w1" and f1: "response_flag w1 = response_flag w"
    by (auto simp: session_get_def log_def split: list.splits http_result.splits)
  let ?w2 = "if bytes_in server_error_message (content r) then w1\<lparr>response_flag := False\<rparr> else w1"
  let ?w3 = "time_sleep query_request_standard_pause ?w2"
  from run sg obtain r' w4 where loop: "retry_loop ?url 30 r ?w3 = (Done r', w4)"
    and w': "w' = open_write (staged_name (json_file_iterator w4)) (content r') w4"
    by (auto simp: QueryExtractionRequest_def Let_def staged_name_def
        split: prod.splits result.splits)
  have n3: "net ?w3 = net w1" by (simp add: time_sleep_def log_def)
  have n': "net w' = net w4" by (simp add: w' open_write_def log_def)
  show ?thesis
  proof (cases "failed r")
    case False
    with flag f1 have "ok r" "response_flag ?w3"
      by (simp_all add: failed_def time_sleep_def log_def)
    then have "retry_loop ?url 30 r ?w3 = (Done r, ?w3)"
      by (rule retry_loop_done)
    with loop [symmetric] have "(Done r', w4) = (Done r, ?w3)"
      by (rule trans)
    then have "r' = r" "w4 = ?w3" by simp_all
    with False nw n3 n' have
      "net w = map Response [] @ Response r # net w' \<and> list_all failed [] \<and> \<not> failed r"
      by simp
    then show ?thesis by blast
  next
    case True
    with flag f1 have "\<not> ok r \<or> \<not> response_flag ?w3"
      by (auto simp: failed_def time_sleep_def log_def)
    from retry_loop_consumed [OF loop refl this] obtain fs where
      "net ?w3 = map Response fs @ Response r' # net w4" "list_all failed fs" "\<not> failed r'"
      by blast
    with True nw n3 n' have
      "net w = map Response (r # fs) @ Response r' # net w' \<and> list_all failed (r # fs)
       \<and> \<not> failed r'"
      by simp
    then show ?thesis by blast
  qed
qed

lemma extraction_loop_consumed:
  "for_each (extract_group f u) groups w = (Done (), w') \<Longrightarrow> response_flag w \<Longrightarrow>
   \<exists>served. length served = length groups \<and> [] \<notin> set groups \<and> list_all served_ok served
     \<and> net w = served_trace served @ net w'"
proof (induction groups arbitrary: w)
  case Nil
  then have "length [] = length ([] :: int list list) \<and> [] \<notin> set ([] :: int list list)
      \<and> list_all served_ok [] \<and> net w = served_trace [] @ net w'"
    by simp
  then show ?case by blast
next
  case (Cons g groups)
  from Cons.prems(1) obtain w1 where one: "extract_group f u g w = (Done (), w1)"
    and rest: "for_each (extract_group f u) groups w1 = (Done (), w')"
    by (cases "extract_group f u g w") (auto simp: and_then_def split: result.splits)
  from extract_group_returns [OF one] have g: "g \<noteq> []" and f1: "response_flag w1"
    by blast+
  then have gb: "group_bounds g = Inr (hd g, last g)"
    by (cases g) (simp_all add: group_bounds_def)
  let ?w0 = "w\<lparr>json_file_iterator := json_file_iterator w + length g\<rparr>"
  from one gb have "QueryExtractionRequest (str_int (hd g)) (str_int (last g)) f u ?w0
      = (Done (), w1)"
    by (simp add: extract_group_def Let_def)
  from QueryExtractionRequest_consumed [OF this] Cons.prems(2) obtain fs s where
    n: "net w = map Response fs @ Response s # net w1" and fs: "list_all failed fs"
    and s: "\<not> failed s"
    by auto
  from Cons.IH [OF rest f1] obtain served where l: "length served = length groups"
    and ne: "[] \<notin> set groups" and ok: "list_all served_ok served"
    and n1: "net w1 = served_trace served @ net w'"
    by blast
  have "length ((fs, s) # served) = length (g # groups) \<and> [] \<notin> set (g # groups)
      \<and> list_all served_ok ((fs, s) # served)
      \<and> net w = served_trace ((fs, s) # served) @ net w'"
    using l ne ok n n1 g fs s by (auto simp: served_ok_def)
  then show ?case by blast
qed


text \<open>
  C5 (as the code has it). Started with the flag set on a served trace (for every
  chunk any number of hard or soft failures, then an accepted response), the main loop
  returns; its events are, chunk by chunk, the request, the pause, the retries and the
  write; every chunk's file holds the body of the response accepted for that chunk and
  is named by the number of identifiers extracted up to and including the chunk
  (\<open>json_file_iterator\<close>, which grows by the chunk's length, not the chunk's ordinal), in
  decimal, left-padded with zeros to six characters, followed by \<open>.json\<close>; the folder
  receives these files in this order. As long as the count stays below 1000000 the
  names are strictly increasing in lexical order. Conversely, a loop that has returned
  has consumed a served trace and has these events; and whatever the flag at entry, a
  returned loop has written one file per chunk under these names.
\<close>

theorem C5_staged_names_are_running_record_counts:
  "(length served = length groups \<and> [] \<notin> set groups \<and> list_all served_ok served
      \<and> net w = served_trace served @ rest \<and> response_flag w \<longrightarrow>
      (\<exists>w'. for_each (extract_group f u) groups w = (Done (), w')
         \<and> events w' = events w @ loop_events f u (json_file_iterator w) groups served
         \<and> writes_of (loop_events f u (json_file_iterator w) groups served)
             = zip (map (\<lambda>n. zfill 6 (str_nat n) @ ''.json'')
                      (running_totals (json_file_iterator w) groups))
                 (map (\<lambda>p. content (snd p)) served)
         \<and> out_json_folder w'
             = foldl (\<lambda>folder (name, data). write_file name data folder) (out_json_folder w)
                 (writes_of (loop_events f u (json_file_iterator w) groups served))
         \<and> net w' = rest
         \<and> json_file_iterator w' = json_file_iterator w + sum_list (map length groups)
         \<and> (json_file_iterator w' < 1000000 \<longrightarrow>
               sorted_wrt (<)
                 (map fst (writes_of (loop_events f u (json_file_iterator w) groups served))))))
   \<and> (for_each (extract_group f u) groups v = (Done (), v') \<and> response_flag v \<longrightarrow>
        (\<exists>served. length served = length groups \<and> [] \<notin> set groups
           \<and> list_all served_ok served
           \<and> net v = served_trace served @ net v'
           \<and> events v' = events v @ loop_events f u (json_file_iterator v) groups served))
   \<and> (for_each (extract_group f u) groups x = (Done (), x') \<longrightarrow>
        (\<exists>new.
           events x' = events x @ new
           \<and> length (writes_of new) = length groups
           \<and> map fst (writes_of new)
               = map (\<lambda>n. zfill 6 (str_nat n) @ ''.json'')
                   (running_totals (json_file_iterator x) groups)
           \<and> (\<forall>body \<in> set (map snd (writes_of new)). \<not> bytes_in server_error_message body)
           \<and> (json_file_iterator x' < 1000000 \<longrightarrow> sorted_wrt (<) (map fst (writes_of new)))))"
proof (intro conjI impI)
  assume a: "length served = length groups \<and> [] \<notin> set groups \<and> list_all served_ok served
      \<and> net w = served_trace served @ rest \<and> response_flag w"
  let ?evs = "loop_events f u (json_file_iterator w) groups served"
  let ?writes = "zip (map staged_name (running_totals (json_file_iterator w) groups))
      (map (\<lambda>p. content (snd p)) served)"
  let ?w' = "w\<lparr>json_file_iterator := json_file_iterator w + sum_list (map length groups),
        net := rest, events := events w @ ?evs,
        out_json_folder :=
          foldl (\<lambda>folder (name, data). write_file name data folder) (out_json_folder w)
            ?writes\<rparr>"
  have sn: "staged_name = (\<lambda>n. zfill 6 (str_nat n) @ ''.json'')"
    by (rule ext) (simp add: staged_name_def)
  from a have run: "for_each (extract_group f u) groups w = (Done (), ?w')"
    by (intro extraction_loop_served) simp_all
  from a have wr: "writes_of ?evs = ?writes"
    by (intro writes_of_loop_events) simp
  have srt: "json_file_iterator ?w' < 1000000 \<longrightarrow> sorted_wrt (<) (map fst (writes_of ?evs))"
  proof
    assume lt: "json_file_iterator ?w' < 1000000"
    from extraction_loop_names [of f u groups w ?w'] run lt obtain new where
      "events ?w' = events w @ new" "sorted_wrt (<) (map fst (writes_of new))"
      by blast
    moreover from this(1) have "new = ?evs" by simp
    ultimately show "sorted_wrt (<) (map fst (writes_of ?evs))" by simp
  qed
  have "events ?w' = events w @ ?evs" "net ?w' = rest"
    "json_file_iterator ?w' = json_file_iterator w + sum_list (map length groups)"
    "out_json_folder ?w'
       = foldl (\<lambda>folder (name, data). write_file name data folder) (out_json_folder w)
           (writes_of ?evs)"
    by (simp_all add: wr)
  with run wr srt show "\<exists>w'. for_each (extract_group f u) groups w = (Done (), w')
         \<and> events w' = events w @ loop_events f u (json_file_iterator w) groups served
         \<and> writes_of (loop_events f u (json_file_iterator w) groups served)
             = zip (map (\<lambda>n. zfill 6 (str_nat n) @ ''.json'')
                      (running_totals (json_file_iterator w) groups))
                 (map (\<lambda>p. content (snd p)) served)
         \<and> out_json_folder w'
             = foldl (\<lambda>folder (name, data). write_file name data folder) (out_json_folder w)
                 (writes_of (loop_events f u (json_file_iterator w) groups served))
         \<and> net w' = rest
         \<and> json_file_iterator w' = json_file_iterator w + sum_list (map length groups)
         \<and> (json_file_iterator w' < 1000000 \<longrightarrow>
               sorted_wrt (<)
                 (map fst (writes_of (loop_events f u (json_file_iterator w) groups served))))"
    unfolding sn by blast
next
  assume b: "for_each (extract_group f u) groups v = (Done (), v') \<and> response_flag v"
  with extraction_loop_consumed [of f u groups v v'] obtain served where
    l: "length served = length groups" and ne: "[] \<notin> set groups"
    and ok: "list_all served_ok served" and n: "net v = served_trace served @ net v'"
    by blast
  from l ne ok n b have run: "for_each (extract_group f u) groups v =
     (Done (),
      v\<lparr>json_file_iterator := json_file_iterator v + sum_list (map length groups),
        net := net v',
        events := events v @ loop_events f u (json_file_iterator v) groups served,
        out_json_folder :=
          foldl (\<lambda>folder (name, data). write_file name data folder) (out_json_folder v)
            (zip (map staged_name (running_totals (json_file_iterator v) groups))
               (map (\<lambda>p. content (snd p)) served))\<rparr>)"
    by (intro extraction_loop_served) simp_all
  have "events (snd (for_each (extract_group f u) groups v))
      = events v @ loop_events f u (json_file_iterator v) groups served"
    unfolding run by simp
  moreover from b have "snd (for_each (extract_group f u) groups v) = v'"
    by simp
  ultimately have "events v' = events v @ loop_events f u (json_file_iterator v) groups served"
    by simp
  with l ne ok n show "\<exists>served. length served = length groups \<and> [] \<notin> set groups
           \<and> list_all served_ok served
           \<and> net v = served_trace served @ net v'
           \<and> events v' = events v @ loop_events f u (json_file_iterator v) groups served"
    by blast
next
  assume "for_each (extract_group f u) groups x = (Done (), x')"
  with extraction_loop_names [of f u groups x x'] show "\<exists>new.
           events x' = events x @ new
           \<and> length (writes_of new) = length groups
           \<and> map fst (writes_of new)
               = map (\<lambda>n. zfill 6 (str_nat n) @ ''.json'')
                   (running_totals (json_file_iterator x) groups)
           \<and> (\<forall>body \<in> set (map snd (writes_of new)). \<not> bytes_in server_error_message body)
           \<and> (json_file_iterator x' < 1000000 \<longrightarrow> sorted_wrt (<) (map fst (writes_of new)))"
    by blast
qed


theorem C5_staged_names_are_running_record_counts_witness:
  "failed soft_error \<and> \<not> failed success
   \<and> net (idle_world\<lparr>net := [Response soft_error, Response success, Response success]\<rparr>)
       = served_trace [([soft_error], success), ([], success)] @ []
   \<and> (\<exists>w'. for_each (extract_group ''OBJECTID'' ''https://host/FeatureServer/0'')
          [[5, 8, 9], [12, 40, 41]]
          (idle_world\<lparr>net := [Response soft_error, Response success, Response success]\<rparr>)
          = (Done (), w')
        \<and> writes_of (events w')
            = [(''000003.json'', content success), (''000006.json'', content success)]
        \<and> out_json_folder w'
            = [(''000003.json'', content success), (''000006.json'', content success)]
        \<and> net w' = []
        \<and> json_file_iterator w' = 6
        \<and> sorted_wrt (<) (map fst (writes_of (events w')))
        \<and> (\<exists>served. length served = 2 \<and> list_all served_ok served
              \<and> served_trace [([soft_error], success), ([], success)]
                  = served_trace served @ net w'))"
proof -
  let ?f = "''OBJECTID''" and ?u = "''https://host/FeatureServer/0''"
  let ?gs = "[[5, 8, 9], [12, 40, 41 :: int]]"
  let ?sv = "[([soft_error], success), ([], success)]"
  let ?w = "idle_world\<lparr>net := [Response soft_error, Response success, Response success]\<rparr>"
  let ?evs = "loop_events ?f ?u (json_file_iterator ?w) ?gs ?sv"
  have n: "net ?w = served_trace ?sv @ []"
    by (simp add: idle_world_def)
  have h: "length ?sv = length ?gs \<and> [] \<notin> set ?gs \<and> list_all served_ok ?sv
      \<and> net ?w = served_trace ?sv @ [] \<and> response_flag ?w"
    by (simp add: served_ok_def failed_soft_error not_failed_success idle_world_def)
  have j0: "json_file_iterator ?w = 0" and e0: "events ?w = []" and o0: "out_json_folder ?w = []"
    by (simp_all add: idle_world_def)
  have rt: "running_totals 0 ?gs = [3, 6]"
    by simp
  have names: "map staged_name [3, 6] = [''000003.json'', ''000006.json'']"
    by (simp only: list.map staged_name_3 staged_name_6)
  have sn: "(\<lambda>n. zfill 6 (str_nat n) @ ''.json'') = staged_name"
    by (rule ext) (simp add: staged_name_def)
  note c5 = C5_staged_names_are_running_record_counts [of ?sv ?gs ?w "[]" ?f ?u ?w _ ?w]
  from c5 h obtain w' where run: "for_each (extract_group ?f ?u) ?gs ?w = (Done (), w')"
    and ev: "events w' = events ?w @ ?evs"
    and wr: "writes_of ?evs
        = zip (map (\<lambda>n. zfill 6 (str_nat n) @ ''.json'') (running_totals (json_file_iterator ?w) ?gs))
            (map (\<lambda>p. content (snd p)) ?sv)"
    and fo: "out_json_folder w'
        = foldl (\<lambda>folder (name, data). write_file name data folder) (out_json_folder ?w)
            (writes_of ?evs)"
    and nw: "net w' = []"
    and jw: "json_file_iterator w' = json_file_iterator ?w + sum_list (map length ?gs)"
    and so: "json_file_iterator w' < 1000000 \<longrightarrow> sorted_wrt (<) (map fst (writes_of ?evs))"
    by blast
  from jw have j6: "json_file_iterator w' = 6"
    by (simp add: j0)
  have "running_totals (json_file_iterator ?w) ?gs = [3, 6]"
    by (simp only: j0 rt)
  then have nm: "map staged_name (running_totals (json_file_iterator ?w) ?gs)
      = [''000003.json'', ''000006.json'']"
    by (simp only: names)
  have wr': "writes_of ?evs = [(''000003.json'', content success), (''000006.json'', content success)]"
    by (simp only: wr sn nm) simp
  have w1: "writes_of (events w')
      = [(''000003.json'', content success), (''000006.json'', content success)]"
    unfolding ev e0 append_Nil by (rule wr')
  have o1: "out_json_folder w'
      = [(''000003.json'', content success), (''000006.json'', content success)]"
    unfolding fo o0 wr' by simp
  from so j6 have "sorted_wrt (<) (map fst (writes_of ?evs))"
    by simp
  then have s1: "sorted_wrt (<) (map fst (writes_of (events w')))"
    unfolding ev e0 append_Nil .
  from h have flag: "response_flag ?w" by simp
  from c5 [of w'] run flag obtain served where l: "length served = length ?gs"
    and ok: "list_all served_ok served" and cons: "net ?w = served_trace served @ net w'"
    by blast
  from l have l2: "length served = 2" by simp
  from cons n have "served_trace ?sv = served_trace served @ net w'"
    by (simp only: append_Nil2)
  with l2 ok have "\<exists>served. length served = 2 \<and> list_all served_ok served
      \<and> served_trace ?sv = served_trace served @ net w'"
    by blast
  with run w1 o1 nw j6 s1 n failed_soft_error not_failed_success show ?thesis
    by blast
qed

end
